(* ===== verification/Prelude.thy ===== *)
theory Prelude
  imports Main "HOL-Library.Word" "HOL-Library.Signed_Division"
begin

text \<open>
  Shared vocabulary of the development: the Go runtime behaviour the ring buffer relies on.
  A Go panic is a value of \<open>go_error\<close> (\<open>Inl\<close> of a \<open>go_result\<close>); \<open>int64\<close> arithmetic
  wraps (\<open>i64\<close>, two's complement on 64 bits); Go's \<open>%\<close> truncates towards zero and
  panics on a zero divisor (\<open>go_mod\<close>); slice reads, writes and \<open>make\<close> check their
  index or length (\<open>go_nth\<close>, \<open>go_update\<close>, \<open>go_make\<close>). The lemmas below give the
  in-range behaviour of each and are collected in \<open>go_simps\<close>.
\<close>

named_theorems go_simps "in-range behaviour of the Go runtime primitives"

datatype go_error =
    IndexOutOfRange          \<comment> \<open>runtime error: index out of range\<close>
  | DivideByZero             \<comment> \<open>runtime error: integer divide by zero\<close>
  | MakeSliceLenOutOfRange   \<comment> \<open>panic: makeslice: len out of range\<close>

type_synonym 'a go_result = "go_error + 'a"

text \<open>A Go \<open>interface{}\<close> value: \<open>None\<close> is \<open>nil\<close>.\<close>
type_synonym 'v iface = "'v option"

type_synonym int32 = "32 word"

subsection \<open>int64 arithmetic\<close>

definition i64 :: "int \<Rightarrow> int" where
  "i64 x = signed_take_bit 63 x"

text \<open>
  Sequence numbers of the model stay below \<open>seq_limit\<close> = \<open>2^62\<close>, far inside the
  \<open>int64\<close> range, so that every cursor sum and difference the code forms is exact.
\<close>

definition seq_limit :: int where
  "seq_limit = 2 ^ 62"

lemma i64_id:
  assumes "- (2 ^ 63) \<le> x" and "x < 2 ^ 63"
  shows "i64 x = x"
  using assms by (simp add: i64_def signed_take_bit_int_eq_self)

lemma i64_small [go_simps]:
  assumes "- seq_limit \<le> x" and "x < 2 * seq_limit"
  shows "i64 x = x"
  using assms by (intro i64_id) (simp_all add: seq_limit_def)

lemma i64_range: "- (2 ^ 63) \<le> i64 x \<and> i64 x < 2 ^ 63"
  using signed_take_bit_int_greater_eq_minus_exp [of 63 x] signed_take_bit_int_less_exp [of 63 x]
  by (simp add: i64_def)

subsection \<open>Go's remainder and slices\<close>

definition go_mod :: "int \<Rightarrow> int \<Rightarrow> int go_result" where
  "go_mod a b = (if b = 0 then Inl DivideByZero else Inr (a smod b))"

lemma go_mod_nonneg [go_simps]:
  assumes "0 \<le> a" and "0 < b"
  shows "go_mod a b = Inr (a mod b)"
  using assms by (auto simp: go_mod_def smod_int_alt_def sgn_if)

lemma go_mod_neg:
  assumes "a < 0" and "0 < b" and "\<not> b dvd a"
  shows "\<exists>r. go_mod a b = Inr r \<and> r < 0"
proof -
  have "\<not> b dvd (- a)" using assms(3) by simp
  then have "(- a) mod b \<noteq> 0" by (simp add: dvd_eq_mod_eq_0)
  moreover have "0 \<le> (- a) mod b" using assms(2) by simp
  ultimately have "0 < (- a) mod b" by linarith
  then show ?thesis using assms(1,2) by (simp add: go_mod_def smod_int_alt_def)
qed

definition go_nth :: "'a list \<Rightarrow> int \<Rightarrow> 'a go_result" where
  "go_nth xs i = (if 0 \<le> i \<and> i < int (length xs) then Inr (xs ! nat i) else Inl IndexOutOfRange)"

definition go_update :: "'a list \<Rightarrow> int \<Rightarrow> 'a \<Rightarrow> 'a list go_result" where
  "go_update xs i v =
     (if 0 \<le> i \<and> i < int (length xs) then Inr (xs[nat i := v]) else Inl IndexOutOfRange)"

definition go_make :: "int \<Rightarrow> 'a \<Rightarrow> 'a list go_result" where
  "go_make n z = (if n < 0 then Inl MakeSliceLenOutOfRange else Inr (replicate (nat n) z))"

lemma go_nth_in [go_simps]:
  "0 \<le> i \<Longrightarrow> i < int (length xs) \<Longrightarrow> go_nth xs i = Inr (xs ! nat i)"
  by (simp add: go_nth_def)

lemma go_update_in [go_simps]:
  "0 \<le> i \<Longrightarrow> i < int (length xs) \<Longrightarrow> go_update xs i v = Inr (xs[nat i := v])"
  by (simp add: go_update_def)

lemma go_make_nonneg [go_simps]:
  "0 \<le> n \<Longrightarrow> go_make n z = Inr (replicate (nat n) z)"
  by (simp add: go_make_def)

lemma go_nth_out:
  "\<not> (0 \<le> i \<and> i < int (length xs)) \<Longrightarrow> go_nth xs i = Inl IndexOutOfRange"
  by (simp add: go_nth_def)

lemma go_update_out:
  "\<not> (0 \<le> i \<and> i < int (length xs)) \<Longrightarrow> go_update xs i v = Inl IndexOutOfRange"
  by (simp add: go_update_def)

lemma go_make_neg:
  "n < 0 \<Longrightarrow> go_make n z = Inl MakeSliceLenOutOfRange"
  by (simp add: go_make_def)

subsection \<open>Slot arithmetic\<close>

text \<open>A non-negative sequence number maps to a slot index in range.\<close>

lemma slot_in_range [go_simps]:
  fixes s n :: int
  assumes "0 < n"
  shows "0 \<le> s mod n" and "s mod n < n"
  using assms by simp_all

text \<open>Two sequence numbers closer than the capacity never share a slot.\<close>

lemma mod_neq_close:
  fixes a b n :: int
  assumes "0 < n" and "a < b" and "b < a + n"
  shows "a mod n \<noteq> b mod n"
proof
  assume "a mod n = b mod n"
  then have "n dvd (b - a)" by (simp add: mod_eq_dvd_iff dvd_diff_commute)
  then have "n \<le> b - a" using assms(2) by (simp add: zdvd_imp_le)
  with assms(3) show False by simp
qed

subsection \<open>Lists\<close>

lemma take_update_Suc:
  "k < length xs \<Longrightarrow> take (Suc k) (xs[k := v]) = take k xs @ [v]"
  by (simp add: take_Suc_conv_app_nth take_update_cancel)

text \<open>An interval of \<open>int\<close>s as offsets from its first element.\<close>

lemma upto_offsets: "[a..a + int n - 1] = map (\<lambda>j. a + int j) [0..<n]"
proof (induction n arbitrary: a)
  case 0
  then show ?case by simp
next
  case (Suc n)
  have "[a..a + int (Suc n) - 1] = a # [a + 1..(a + 1) + int n - 1]"
    by (simp add: upto_rec1 algebra_simps)
  also have "\<dots> = a # map (\<lambda>j. a + 1 + int j) [0..<n]" by (simp only: Suc.IH)
  also have "\<dots> = map (\<lambda>j. a + int j) [0..<Suc n]"
    by (simp add: map_upt_Suc algebra_simps del: upt_Suc)
  finally show ?case .
qed

text \<open>Updating a list element to the value it has keeps it, in range or not; the sum of
  a map after a point update.\<close>

lemma nth_update_keep: "xs ! k = v \<Longrightarrow> xs[j := v] ! k = v"
proof (induction xs arbitrary: j k)
  case Nil
  then show ?case by simp
next
  case (Cons x xs)
  then show ?case by (cases j; cases k) auto
qed


lemma sum_list_map_update:
  "i < length xs \<Longrightarrow>
   sum_list (map f (xs[i := x])) + f (xs ! i) = sum_list (map f xs) + (f x :: nat)"
proof (induction xs arbitrary: i)
  case Nil
  then show ?case by simp
next
  case (Cons y ys)
  then show ?case by (cases i) auto
qed


end
