(* ===== verification/RingBuffer.thy ===== *)
theory RingBuffer
  imports Prelude
begin

text \<open>
  The \<open>RingBuffer\<close> of \<open>src/lmax.go\<close>: its struct as a record, \<open>NewRingBuffer\<close>,
  \<open>Put\<close> and \<open>Get\<close> as state-passing functions, in the order of the source. Every panic
  the Go runtime would raise (slice index, \<open>make\<close> with a negative length, \<open>%\<close> by zero)
  is an \<open>Inl\<close> value. The operations are modelled as atomic, one goroutine at a time: the
  spin-wait of \<open>Get\<close> (\<open>time.Sleep\<close> until a slot becomes available) changes nothing
  when no other goroutine runs, so the loop is a \<^theory_text>\<open>partial_function (option)\<close> whose
  value is \<open>None\<close> when it spins forever.
\<close>

section \<open>State\<close>

record 'v ring_buffer =
  rb_size :: int                  \<comment> \<open>\<open>size\<close>\<close>
  buffer :: "'v iface list"       \<comment> \<open>\<open>buffer []interface{}\<close>\<close>
  writeCursor :: int              \<comment> \<open>\<open>int64\<close>: number of sequences claimed so far\<close>
  readCursors :: "int list"       \<comment> \<open>\<open>[]int64\<close>: last sequence read, per consumer\<close>
  available :: "int32 list"       \<comment> \<open>\<open>[]int32\<close>: 1 once a slot has been written\<close>
  writeBarrier :: int             \<comment> \<open>never written (its only store is commented out)\<close>
  readBarrier :: int              \<comment> \<open>minimum cursor, stored at the end of each \<open>Get\<close>\<close>

section \<open>NewRingBuffer\<close>

definition new_ring_buffer :: "int \<Rightarrow> int \<Rightarrow> 'v ring_buffer go_result" where
  "new_ring_buffer sz numConsumers =
     (case go_make sz None of
        Inl e \<Rightarrow> Inl e
      | Inr buf \<Rightarrow>
          (case go_make numConsumers (0::int) of
             Inl e \<Rightarrow> Inl e
           | Inr rcs \<Rightarrow>
               (case go_make sz (0::int32) of
                  Inl e \<Rightarrow> Inl e
                | Inr av \<Rightarrow>
                    Inr \<lparr>rb_size = sz, buffer = buf, writeCursor = 0,
                         readCursors = map (\<lambda>_. -1) rcs, available = av,
                         writeBarrier = 0, readBarrier = 0\<rparr>)))"

section \<open>Put\<close>

text \<open>The \<open>for\<close> loop of \<open>Put\<close>: one slot written and flagged per element, in order.\<close>

fun put_loop :: "'v ring_buffer \<Rightarrow> int \<Rightarrow> 'v iface list \<Rightarrow> 'v ring_buffer go_result" where
  "put_loop rb nextWrite [] = Inr rb"
| "put_loop rb nextWrite (d # ds) =
     (case go_mod nextWrite (rb_size rb) of
        Inl e \<Rightarrow> Inl e
      | Inr slot \<Rightarrow>
          (case go_update (buffer rb) slot d of
             Inl e \<Rightarrow> Inl e
           | Inr buf \<Rightarrow>
               (case go_update (available rb) slot 1 of
                  Inl e \<Rightarrow> Inl e
                | Inr av \<Rightarrow>
                    put_loop (rb\<lparr>buffer := buf, available := av\<rparr>) (i64 (nextWrite + 1)) ds)))"

text \<open>
  \<open>atomic.AddInt64\<close> claims \<open>len(data)\<close> sequences at once; \<open>nextWrite\<close> is the first of
  them. No check against the consumers' cursors is made.
\<close>

definition put :: "'v ring_buffer \<Rightarrow> 'v iface list \<Rightarrow> 'v ring_buffer go_result" where
  "put rb data =
     (let n = int (length data);
          wc = i64 (writeCursor rb + n);
          nextWrite = i64 (wc - n)
      in put_loop (rb\<lparr>writeCursor := wc\<rparr>) nextWrite data)"

section \<open>Get\<close>

text \<open>
  The \<open>for i := 0; i < batchSize;\<close> loop of \<open>Get\<close>. Its state is \<open>nextRead\<close>, \<open>i\<close>,
  \<open>index\<close> and the \<open>results\<close> slice; the store through the \<open>readCursor\<close> pointer
  updates \<open>readCursors[consumerId]\<close>. The sleep branch calls the loop again on the same
  state.
\<close>

partial_function (option) get_loop ::
  "'v ring_buffer \<Rightarrow> int \<Rightarrow> int \<Rightarrow> int \<Rightarrow> int \<Rightarrow> int \<Rightarrow> 'v iface list \<Rightarrow>
   ('v ring_buffer \<times> int \<times> 'v iface list) go_result option" where
  "get_loop rb consumerId batchSize nextRead i index results =
     (if i < batchSize then
        (if nextRead \<le> writeCursor rb \<and> i64 (nextRead - readBarrier rb) < rb_size rb then
           (case go_mod nextRead (rb_size rb) of
              Inl e \<Rightarrow> Some (Inl e)
            | Inr slot \<Rightarrow>
                (case go_nth (available rb) slot of
                   Inl e \<Rightarrow> Some (Inl e)
                 | Inr a \<Rightarrow>
                     (if a = 1 then
                        (case go_nth (buffer rb) slot of
                           Inl e \<Rightarrow> Some (Inl e)
                         | Inr v \<Rightarrow>
                             (case go_update results index v of
                                Inl e \<Rightarrow> Some (Inl e)
                              | Inr results' \<Rightarrow>
                                  get_loop
                                    (rb\<lparr>readCursors := (readCursors rb)[nat consumerId := nextRead]\<rparr>)
                                    consumerId batchSize (i64 (nextRead + 1)) (i + 1) (index + 1)
                                    results'))
                      else get_loop rb consumerId batchSize nextRead i index results)))
         else Some (Inr (rb, index, results)))
      else Some (Inr (rb, index, results)))"

declare get_loop.simps [code]

text \<open>The barrier loop at the end of \<open>Get\<close>: the least of the consumers' cursors.\<close>

fun min_cursor :: "int \<Rightarrow> int list \<Rightarrow> int" where
  "min_cursor m [] = m"
| "min_cursor m (c # cs) = min_cursor (if c < m then c else m) cs"

definition get ::
  "'v ring_buffer \<Rightarrow> int \<Rightarrow> int \<Rightarrow> ('v ring_buffer \<times> 'v iface list) go_result option" where
  "get rb batchSize consumerId =
     (case go_nth (readCursors rb) consumerId of
        Inl e \<Rightarrow> Some (Inl e)
      | Inr c \<Rightarrow>
          (case go_make batchSize None of
             Inl e \<Rightarrow> Some (Inl e)
           | Inr results \<Rightarrow>
               (case get_loop rb consumerId batchSize (i64 (c + 1)) 0 0 results of
                  None \<Rightarrow> None
                | Some (Inl e) \<Rightarrow> Some (Inl e)
                | Some (Inr (rb', index, res)) \<Rightarrow>
                    (let m = min_cursor (readCursors rb' ! nat consumerId) (readCursors rb')
                     in Some (Inr (rb'\<lparr>readBarrier := m\<rparr>, take (nat index) res))))))"

section \<open>The slot protocol and the invariant\<close>

text \<open>
  Sequence \<open>s\<close> lives in slot \<open>s mod size\<close>. \<open>slots_hold n buf av st\<close> says that a
  buffer and flag array of capacity \<open>n\<close> hold the published stream \<open>st\<close>: each of
  the last \<open>n\<close> sequences sits in its slot with its flag set, and a slot no sequence has
  reached yet is still unflagged. \<open>rb_holds\<close> adds that \<open>writeCursor\<close> counts the
  stream.
\<close>

definition slot :: "int \<Rightarrow> int \<Rightarrow> nat" where
  "slot n s = nat (s mod n)"

definition slots_hold :: "int \<Rightarrow> 'v iface list \<Rightarrow> int32 list \<Rightarrow> 'v iface list \<Rightarrow> bool" where
  "slots_hold n buf av st \<longleftrightarrow>
     list_all (\<lambda>s. buf ! slot n s = st ! nat s \<and> av ! slot n s = 1)
       [max 0 (int (length st) - n)..int (length st) - 1] \<and>
     list_all (\<lambda>j. av ! nat j = 0) [int (length st)..n - 1]"

definition rb_holds :: "'v ring_buffer \<Rightarrow> 'v iface list \<Rightarrow> bool" where
  "rb_holds rb st \<longleftrightarrow>
     writeCursor rb = int (length st) \<and> slots_hold (rb_size rb) (buffer rb) (available rb) st"

text \<open>
  The invariant of the record: the slices have \<open>size\<close> elements, the write cursor is a
  count below \<open>seq_limit\<close>, every read cursor lies in \<open>[-1, writeCursor]\<close>, and the
  read barrier is at most one past every cursor (it is \<open>0\<close> until the first \<open>Get\<close>,
  then the least cursor).
\<close>

definition rb_wf :: "'v ring_buffer \<Rightarrow> bool" where
  "rb_wf rb \<longleftrightarrow>
     0 \<le> rb_size rb \<and> length (buffer rb) = nat (rb_size rb) \<and>
     length (available rb) = nat (rb_size rb) \<and>
     0 \<le> writeCursor rb \<and> writeCursor rb \<le> seq_limit \<and> -1 \<le> readBarrier rb \<and>
     (\<forall>c\<in>set (readCursors rb). -1 \<le> c \<and> c \<le> writeCursor rb \<and> readBarrier rb \<le> c + 1)"

text \<open>
  Two concrete states used by the witnesses: \<open>ex_ring3\<close> is
  \<open>NewRingBuffer(4, 1)\<close> after \<open>Put(1, 2, 3)\<close>; \<open>ex_wrapped\<close> is
  \<open>NewRingBuffer(4, 1)\<close> after \<open>Put(1, 2, 3, 4)\<close>, \<open>Get(4, 0)\<close> and \<open>Put(5, 6)\<close>.
\<close>

abbreviation ex_ring3 :: "nat ring_buffer" where
  "ex_ring3 \<equiv> \<lparr>rb_size = 4, buffer = [Some 1, Some 2, Some 3, None], writeCursor = 3,
               readCursors = [-1], available = [1, 1, 1, 0], writeBarrier = 0, readBarrier = 0\<rparr>"

abbreviation ex_wrapped :: "nat ring_buffer" where
  "ex_wrapped \<equiv> \<lparr>rb_size = 4, buffer = [Some 5, Some 6, Some 3, Some 4], writeCursor = 6,
                 readCursors = [3], available = [1, 1, 1, 1], writeBarrier = 0, readBarrier = 3\<rparr>"

lemma slot_lt [simp]: "0 < n \<Longrightarrow> slot n s < nat n"
  by (simp add: slot_def)

lemma slot_small: "0 \<le> j \<Longrightarrow> j < n \<Longrightarrow> slot n j = nat j"
  by (simp add: slot_def)

lemma slot_inj_close: "0 < n \<Longrightarrow> a < b \<Longrightarrow> b < a + n \<Longrightarrow> slot n a \<noteq> slot n b"
  using mod_neq_close [of n a b] by (simp add: slot_def nat_eq_iff2)

lemma slots_hold_iff:
  "slots_hold n buf av st \<longleftrightarrow>
     (\<forall>s. 0 \<le> s \<and> s < int (length st) \<and> int (length st) \<le> s + n \<longrightarrow>
          buf ! slot n s = st ! nat s \<and> av ! slot n s = 1) \<and>
     (\<forall>j. int (length st) \<le> j \<and> j < n \<longrightarrow> av ! nat j = 0)"
  by (auto simp: slots_hold_def list_all_iff)

lemma slots_hold_Nil: "(\<forall>x\<in>set av. x = 0) \<Longrightarrow> length av = nat n \<Longrightarrow> slots_hold n buf av []"
  by (auto simp: slots_hold_iff)

lemma slots_hold_snoc:
  assumes hold: "slots_hold n buf av st" and pos: "0 < n"
    and lb: "length buf = nat n" and la: "length av = nat n"
  shows "slots_hold n (buf[slot n (int (length st)) := d]) (av[slot n (int (length st)) := 1])
           (st @ [d])"
  unfolding slots_hold_iff
proof (intro conjI allI impI)
  let ?n = "int (length st)"
  fix s assume s: "0 \<le> s \<and> s < int (length (st @ [d])) \<and> int (length (st @ [d])) \<le> s + n"
  have "buf[slot n ?n := d] ! slot n s = (st @ [d]) ! nat s \<and> av[slot n ?n := 1] ! slot n s = 1"
  proof (cases "s = ?n")
    case True
    have "slot n ?n < length buf" "slot n ?n < length av"
      using pos lb la by simp_all
    with True show ?thesis by simp
  next
    case False
    with s have lt: "s < ?n" and ge: "?n < s + n" by auto
    then have ne: "slot n s \<noteq> slot n ?n" using slot_inj_close [OF pos lt] by simp
    have "buf ! slot n s = st ! nat s \<and> av ! slot n s = 1"
      using hold s lt ge unfolding slots_hold_iff by auto
    moreover have "nat s < length st" using lt s by (simp add: nat_less_iff)
    ultimately show ?thesis using ne by (simp add: nth_append)
  qed
  then show "buf[slot n ?n := d] ! slot n s = (st @ [d]) ! nat s"
    and "av[slot n ?n := 1] ! slot n s = 1" by simp_all
next
  let ?n = "int (length st)"
  fix j assume j: "int (length (st @ [d])) \<le> j \<and> j < n"
  then have "slot n ?n = nat ?n" using slot_small [of ?n n] by simp
  moreover have "av ! nat j = 0" using hold j unfolding slots_hold_iff by auto
  moreover have "length st < nat j" using j by (simp add: zless_nat_eq_int_zless)
  ultimately show "av[slot n ?n := 1] ! nat j = 0" by simp
qed

section \<open>Put\<close>

text \<open>
  The loop of \<open>Put\<close> never fails when the capacity is positive and the sequences stay
  below \<open>seq_limit\<close>; it changes only the two slices, keeps their length, and extends any
  stream the slots held by the elements written.
\<close>

lemma put_loop_slots:
  assumes "0 < rb_size rb" and "length (buffer rb) = nat (rb_size rb)"
    and "length (available rb) = nat (rb_size rb)"
    and "0 \<le> nw" and "nw + int (length ds) \<le> seq_limit"
  shows "\<exists>buf av. put_loop rb nw ds = Inr (rb\<lparr>buffer := buf, available := av\<rparr>) \<and>
           length buf = nat (rb_size rb) \<and> length av = nat (rb_size rb) \<and>
           (\<forall>st. slots_hold (rb_size rb) (buffer rb) (available rb) st \<longrightarrow> nw = int (length st) \<longrightarrow>
                 slots_hold (rb_size rb) buf av (st @ ds))"
  using assms
proof (induction ds arbitrary: rb nw)
  case Nil
  then show ?case by (intro exI [of _ "buffer rb"] exI [of _ "available rb"]) simp
next
  case (Cons d ds)
  let ?k = "slot (rb_size rb) nw"
  let ?rb1 = "rb\<lparr>buffer := (buffer rb)[?k := d], available := (available rb)[?k := 1]\<rparr>"
  have step: "put_loop rb nw (d # ds) = put_loop ?rb1 (nw + 1) ds"
    using Cons.prems by (simp add: go_simps slot_def seq_limit_def)
  have "\<exists>buf av. put_loop ?rb1 (nw + 1) ds = Inr (?rb1\<lparr>buffer := buf, available := av\<rparr>) \<and>
      length buf = nat (rb_size ?rb1) \<and> length av = nat (rb_size ?rb1) \<and>
      (\<forall>st. slots_hold (rb_size ?rb1) (buffer ?rb1) (available ?rb1) st \<longrightarrow> nw + 1 = int (length st) \<longrightarrow>
            slots_hold (rb_size ?rb1) buf av (st @ ds))"
    using Cons.prems by (intro Cons.IH) simp_all
  then obtain buf av where
      run: "put_loop ?rb1 (nw + 1) ds = Inr (?rb1\<lparr>buffer := buf, available := av\<rparr>)"
      and len: "length buf = nat (rb_size rb)" "length av = nat (rb_size rb)"
      and ext: "\<forall>st. slots_hold (rb_size rb) ((buffer rb)[?k := d]) ((available rb)[?k := 1]) st \<longrightarrow>
                 nw + 1 = int (length st) \<longrightarrow> slots_hold (rb_size rb) buf av (st @ ds)"
    by auto
  have "\<forall>st. slots_hold (rb_size rb) (buffer rb) (available rb) st \<longrightarrow> nw = int (length st) \<longrightarrow>
            slots_hold (rb_size rb) buf av (st @ d # ds)"
  proof (intro allI impI)
    fix st assume hold: "slots_hold (rb_size rb) (buffer rb) (available rb) st"
      and nw: "nw = int (length st)"
    have "slots_hold (rb_size rb) ((buffer rb)[?k := d]) ((available rb)[?k := 1]) (st @ [d])"
      using slots_hold_snoc [OF hold Cons.prems(1-3)] nw by simp
    with ext nw show "slots_hold (rb_size rb) buf av (st @ d # ds)" by fastforce
  qed
  with step run len show ?case by auto
qed

lemma put_effect:
  assumes wf: "rb_wf rb" and pos: "0 < rb_size rb"
    and lim: "writeCursor rb + int (length data) \<le> seq_limit"
  shows "\<exists>buf av. put rb data =
            Inr (rb\<lparr>writeCursor := writeCursor rb + int (length data), buffer := buf, available := av\<rparr>) \<and>
           length buf = nat (rb_size rb) \<and> length av = nat (rb_size rb) \<and>
           (\<forall>st. rb_holds rb st \<longrightarrow> slots_hold (rb_size rb) buf av (st @ data))"
proof -
  let ?n = "int (length data)"
  let ?rb0 = "rb\<lparr>writeCursor := writeCursor rb + ?n\<rparr>"
  have w: "i64 (writeCursor rb + ?n) = writeCursor rb + ?n"
    using wf lim by (intro i64_small) (auto simp: rb_wf_def seq_limit_def)
  have f: "i64 (writeCursor rb) = writeCursor rb"
    using wf i64_small [of "writeCursor rb"] by (auto simp: rb_wf_def seq_limit_def)
  have unf: "put rb data = put_loop ?rb0 (writeCursor rb) data"
    by (simp add: put_def Let_def w f)
  obtain buf av where
      run: "put_loop ?rb0 (writeCursor rb) data = Inr (?rb0\<lparr>buffer := buf, available := av\<rparr>)"
      and len: "length buf = nat (rb_size rb)" "length av = nat (rb_size rb)"
      and ext: "\<forall>st. slots_hold (rb_size rb) (buffer rb) (available rb) st \<longrightarrow>
                   writeCursor rb = int (length st) \<longrightarrow> slots_hold (rb_size rb) buf av (st @ data)"
    using put_loop_slots [of ?rb0 "writeCursor rb" data] wf pos lim by (auto simp: rb_wf_def)
  show ?thesis
    using unf run len ext by (auto simp: rb_holds_def)
qed

text \<open>
  C8: with a positive capacity and sequence numbers below \<open>seq_limit\<close>, \<open>Put\<close> returns
  without panicking, keeps the invariant, advances the write cursor by \<open>len(data)\<close> and
  leaves the read cursors and the barrier alone: it never waits for a consumer.
\<close>

lemma put_wf:
  assumes "rb_wf rb" and "0 < rb_size rb" and "writeCursor rb + int (length data) \<le> seq_limit"
  shows "\<exists>rb'. put rb data = Inr rb' \<and> rb_wf rb' \<and>
           writeCursor rb' = writeCursor rb + int (length data) \<and>
           readCursors rb' = readCursors rb \<and> readBarrier rb' = readBarrier rb \<and>
           rb_size rb' = rb_size rb"
proof -
  obtain buf av where
      p: "put rb data =
            Inr (rb\<lparr>writeCursor := writeCursor rb + int (length data), buffer := buf, available := av\<rparr>)"
      and len: "length buf = nat (rb_size rb)" "length av = nat (rb_size rb)"
    using put_effect [OF assms] by blast
  have "rb_wf (rb\<lparr>writeCursor := writeCursor rb + int (length data), buffer := buf, available := av\<rparr>)"
    using assms(1,3) len by (fastforce simp: rb_wf_def)
  with p show ?thesis by auto
qed

lemma put_holds:
  assumes "rb_wf rb" and "rb_holds rb st" and "0 < rb_size rb"
    and "writeCursor rb + int (length data) \<le> seq_limit"
  shows "\<exists>rb'. put rb data = Inr rb' \<and> rb_wf rb' \<and> rb_holds rb' (st @ data) \<and>
           readCursors rb' = readCursors rb \<and> readBarrier rb' = readBarrier rb \<and>
           rb_size rb' = rb_size rb"
proof -
  obtain buf av where
      p: "put rb data =
            Inr (rb\<lparr>writeCursor := writeCursor rb + int (length data), buffer := buf, available := av\<rparr>)"
      and len: "length buf = nat (rb_size rb)" "length av = nat (rb_size rb)"
      and ext: "\<forall>st. rb_holds rb st \<longrightarrow> slots_hold (rb_size rb) buf av (st @ data)"
    using put_effect [OF assms(1,3,4)] by blast
  have "rb_wf (rb\<lparr>writeCursor := writeCursor rb + int (length data), buffer := buf, available := av\<rparr>)"
    using assms(1,4) len by (fastforce simp: rb_wf_def)
  moreover have "rb_holds (rb\<lparr>writeCursor := writeCursor rb + int (length data), buffer := buf,
                   available := av\<rparr>) (st @ data)"
    using ext assms(2) by (simp add: rb_holds_def)
  ultimately show ?thesis using p by auto
qed

lemma put_size_zero:
  assumes "rb_size rb = 0" and "data \<noteq> []"
  shows "put rb data = Inl DivideByZero"
  using assms by (cases data) (simp_all add: put_def Let_def go_mod_def)

section \<open>NewRingBuffer\<close>

lemma new_ring_buffer_eq:
  assumes "0 \<le> sz" and "0 \<le> numConsumers"
  shows "new_ring_buffer sz numConsumers =
           Inr \<lparr>rb_size = sz, buffer = replicate (nat sz) None, writeCursor = 0,
                readCursors = replicate (nat numConsumers) (-1),
                available = replicate (nat sz) 0, writeBarrier = 0, readBarrier = 0\<rparr>"
  using assms by (simp add: new_ring_buffer_def go_simps)

lemma ex_ring3_wf: "rb_wf ex_ring3"
  by (simp add: rb_wf_def seq_limit_def)

theorem put_wf_witness:
  "rb_wf ex_ring3 \<and> 0 < rb_size ex_ring3 \<and>
   writeCursor ex_ring3 + int (length [Some (7::nat), Some 8]) \<le> seq_limit \<and>
   (\<exists>rb'. put ex_ring3 [Some 7, Some 8] = Inr rb' \<and> rb_wf rb' \<and>
      writeCursor rb' = writeCursor ex_ring3 + int (length [Some (7::nat), Some 8]) \<and>
      readCursors rb' = readCursors ex_ring3 \<and> readBarrier rb' = readBarrier ex_ring3 \<and>
      rb_size rb' = rb_size ex_ring3)"
proof -
  have h: "rb_wf ex_ring3" "0 < rb_size ex_ring3"
    "writeCursor ex_ring3 + int (length [Some (7::nat), Some 8]) \<le> seq_limit"
    by (rule ex_ring3_wf) (simp_all add: seq_limit_def)
  show ?thesis using put_wf [OF h] h by blast
qed

text \<open>
  C10: \<open>NewRingBuffer(size, numConsumers)\<close> with non-negative arguments returns a record
  that satisfies the invariant and holds the empty stream, with every consumer's cursor at
  \<open>-1\<close> ("before the first element").
\<close>

theorem new_ring_buffer_ok:
  assumes "0 \<le> sz" and "0 \<le> numConsumers"
  shows "\<exists>rb. new_ring_buffer sz numConsumers = Inr rb \<and> rb_wf rb \<and> rb_holds rb [] \<and>
           readCursors rb = replicate (nat numConsumers) (-1) \<and> rb_size rb = sz"
proof -
  let ?rb = "\<lparr>rb_size = sz, buffer = replicate (nat sz) None, writeCursor = 0,
              readCursors = replicate (nat numConsumers) (-1),
              available = replicate (nat sz) (0::int32), writeBarrier = 0, readBarrier = 0\<rparr>
              :: 'v ring_buffer"
  have "rb_wf ?rb" using assms by (simp add: rb_wf_def seq_limit_def)
  moreover have "slots_hold sz (replicate (nat sz) None) (replicate (nat sz) (0::int32)) []"
    by (rule slots_hold_Nil) simp_all
  then have "rb_holds ?rb []" by (simp add: rb_holds_def)
  ultimately show ?thesis using new_ring_buffer_eq [OF assms] by auto
qed

text \<open>
  C11: a negative capacity or consumer count makes \<open>make\<close> panic.
\<close>

theorem new_ring_buffer_neg:
  assumes "sz < 0 \<or> numConsumers < 0"
  shows "new_ring_buffer sz numConsumers = Inl MakeSliceLenOutOfRange"
  using assms by (auto simp: new_ring_buffer_def go_make_def)

theorem new_ring_buffer_ok_witness:
  "0 \<le> (4::int) \<and> 0 \<le> (1::int) \<and>
   (\<exists>rb :: nat ring_buffer. new_ring_buffer 4 1 = Inr rb \<and> rb_wf rb \<and> rb_holds rb [] \<and>
      readCursors rb = replicate (nat 1) (-1) \<and> rb_size rb = 4)"
  using new_ring_buffer_ok [of 4 1] by simp

theorem new_ring_buffer_neg_witness:
  "((-1::int) < 0 \<or> (1::int) < 0) \<and>
   (new_ring_buffer (-1) 1 :: nat ring_buffer go_result) = Inl MakeSliceLenOutOfRange"
  using new_ring_buffer_neg [of "-1" 1] by simp

text \<open>
  C14: a capacity of 0 is accepted by \<open>NewRingBuffer\<close> (the specification calls it a
  construction-time failure), and every later non-empty \<open>Put\<close> then panics with an
  integer division by zero in \<open>nextWrite % size\<close>.
\<close>

theorem zero_capacity_accepted:
  assumes "0 \<le> numConsumers"
  shows "\<exists>rb. new_ring_buffer 0 numConsumers = Inr rb \<and>
           (\<forall>data. data \<noteq> [] \<longrightarrow> put rb data = Inl DivideByZero)"
proof -
  have "\<forall>data. data \<noteq> [] \<longrightarrow> put (\<lparr>rb_size = 0, buffer = replicate (nat 0) None, writeCursor = 0,
              readCursors = replicate (nat numConsumers) (-1),
              available = replicate (nat 0) (0::int32), writeBarrier = 0, readBarrier = 0\<rparr>
              :: 'v ring_buffer) data = Inl DivideByZero"
    by (simp add: put_size_zero)
  then show ?thesis using new_ring_buffer_eq [of 0 numConsumers] assms by auto
qed

theorem zero_capacity_accepted_witness:
  "0 \<le> (1::int) \<and>
   (\<exists>rb :: nat ring_buffer. new_ring_buffer 0 1 = Inr rb \<and>
      (\<forall>data. data \<noteq> [] \<longrightarrow> put rb data = Inl DivideByZero))"
  using zero_capacity_accepted [of 1] by simp

end
