(* ===== verification/GetLoop.thy ===== *)
theory GetLoop
  imports RingBuffer
begin

text \<open>
  The read loop of \<open>Get\<close> (\<open>src/lmax.go\<close> lines 54--71) in closed form. From cursor
  \<open>c\<close> the loop visits \<open>nextRead = c + 1, c + 2, \<dots>\<close> while fewer than \<open>batchSize\<close>
  items were read, \<open>nextRead \<le> writeCursor\<close> and \<open>nextRead - readBarrier < size\<close>;
  \<open>get_count\<close> is the number of such sequences. The loop reads all of them when every one
  has its slot flagged (\<open>get_loop_reads\<close>) and spins forever otherwise
  (\<open>get_loop_spins\<close>). \<open>get_ref\<close> is the resulting reference definition of the
  whole of \<open>Get\<close>, and \<open>get_eq_ref\<close> the equivalence.
\<close>

section \<open>The window of the read loop\<close>

definition get_count :: "'v ring_buffer \<Rightarrow> int \<Rightarrow> int \<Rightarrow> int" where
  "get_count rb nr b =
     max 0 (min b (min (writeCursor rb - nr + 1) (readBarrier rb + rb_size rb - nr)))"

definition loop_pre :: "'v ring_buffer \<Rightarrow> int \<Rightarrow> int \<Rightarrow> int \<Rightarrow> int \<Rightarrow> 'v iface list \<Rightarrow> bool" where
  "loop_pre rb cid bs nr i res \<longleftrightarrow>
     0 \<le> cid \<and> cid < int (length (readCursors rb)) \<and> 0 \<le> rb_size rb \<and>
     length (buffer rb) = nat (rb_size rb) \<and> length (available rb) = nat (rb_size rb) \<and>
     -1 \<le> readBarrier rb \<and> readBarrier rb \<le> nr \<and> 0 \<le> nr \<and> nr \<le> writeCursor rb + 1 \<and>
     writeCursor rb \<le> seq_limit \<and> 0 \<le> i \<and> i \<le> bs \<and> length res = nat bs"

definition slot_value :: "'v ring_buffer \<Rightarrow> int \<Rightarrow> 'v iface" where
  "slot_value rb s = buffer rb ! slot (rb_size rb) s"

definition slot_ready :: "'v ring_buffer \<Rightarrow> int \<Rightarrow> bool" where
  "slot_ready rb s \<longleftrightarrow> available rb ! slot (rb_size rb) s = 1"

definition get_ref ::
  "'v ring_buffer \<Rightarrow> int \<Rightarrow> int \<Rightarrow> ('v ring_buffer \<times> 'v iface list) go_result option" where
  "get_ref rb batchSize consumerId =
     (if \<not> (0 \<le> consumerId \<and> consumerId < int (length (readCursors rb)))
      then Some (Inl IndexOutOfRange)
      else if batchSize < 0 then Some (Inl MakeSliceLenOutOfRange)
      else
        (let c = readCursors rb ! nat consumerId;
             k = get_count rb (c + 1) batchSize;
             seqs = [c + 1..c + k];
             rcs = (readCursors rb)[nat consumerId := c + k]
         in if list_all (slot_ready rb) seqs
            then Some (Inr (rb\<lparr>readCursors := rcs, readBarrier := Min (set rcs)\<rparr>,
                            map (slot_value rb) seqs))
            else None))"

section \<open>The read loop\<close>

lemma get_count_nonneg: "0 \<le> get_count rb nr b"
  by (simp add: get_count_def)

lemma get_loop_exit:
  assumes "loop_pre rb cid bs nr i res" and "get_count rb nr (bs - i) = 0"
  shows "\<not> (i < bs \<and> nr \<le> writeCursor rb \<and> i64 (nr - readBarrier rb) < rb_size rb)"
proof -
  have "- seq_limit \<le> nr - readBarrier rb" "nr - readBarrier rb < 2 * seq_limit"
    using assms(1) by (auto simp: loop_pre_def seq_limit_def)
  then have "i64 (nr - readBarrier rb) = nr - readBarrier rb" by (rule i64_small)
  with assms show ?thesis by (auto simp: get_count_def)
qed

lemma get_loop_enter:
  assumes pre: "loop_pre rb cid bs nr i res" and cnt: "0 < get_count rb nr (bs - i)"
  shows "i < bs \<and> nr \<le> writeCursor rb \<and> i64 (nr - readBarrier rb) < rb_size rb \<and>
         0 < rb_size rb \<and>
         go_mod nr (rb_size rb) = Inr (nr mod rb_size rb) \<and>
         go_nth (available rb) (nr mod rb_size rb) = Inr (available rb ! slot (rb_size rb) nr) \<and>
         go_nth (buffer rb) (nr mod rb_size rb) = Inr (buffer rb ! slot (rb_size rb) nr) \<and>
         go_update res i v = Inr (res[nat i := v]) \<and> i64 (nr + 1) = nr + 1"
proof -
  have "- seq_limit \<le> nr - readBarrier rb" "nr - readBarrier rb < 2 * seq_limit"
    using pre by (auto simp: loop_pre_def seq_limit_def)
  then have d: "i64 (nr - readBarrier rb) = nr - readBarrier rb" by (rule i64_small)
  have "- seq_limit \<le> nr + 1" "nr + 1 < 2 * seq_limit"
    using pre by (auto simp: loop_pre_def seq_limit_def)
  then have s: "i64 (nr + 1) = nr + 1" by (rule i64_small)
  from pre cnt have g: "i < bs" "nr \<le> writeCursor rb" "nr - readBarrier rb < rb_size rb"
    by (auto simp: get_count_def loop_pre_def)
  with pre have pos: "0 < rb_size rb" by (simp add: loop_pre_def)
  from pre have "0 \<le> nr" by (simp add: loop_pre_def)
  with pos pre g d s show ?thesis
    by (simp add: loop_pre_def go_simps slot_def)
qed

lemma get_loop_pre_next:
  assumes pre: "loop_pre rb cid bs nr i res" and cnt: "0 < get_count rb nr (bs - i)"
  shows "loop_pre (rb\<lparr>readCursors := (readCursors rb)[nat cid := nr]\<rparr>) cid bs (nr + 1) (i + 1)
           (res[nat i := v])"
    and "get_count (rb\<lparr>readCursors := (readCursors rb)[nat cid := nr]\<rparr>) (nr + 1) (bs - (i + 1)) =
         get_count rb nr (bs - i) - 1"
  using pre cnt by (auto simp: loop_pre_def get_count_def)

lemma get_loop_reads:
  assumes "loop_pre rb cid bs nr i res"
    and "n = nat (get_count rb nr (bs - i))"
    and "\<forall>j<n. available rb ! slot (rb_size rb) (nr + int j) = 1"
  shows "get_loop rb cid bs nr i i res =
     Some (Inr (rb\<lparr>readCursors := (if n = 0 then readCursors rb
                                    else (readCursors rb)[nat cid := nr + int n - 1])\<rparr>,
                i + int n,
                take (nat i) res @ map (\<lambda>j. buffer rb ! slot (rb_size rb) (nr + int j)) [0..<n] @
                drop (nat i + n) res))"
  using assms
proof (induction n arbitrary: rb nr i res)
  case 0
  then have "get_count rb nr (bs - i) = 0" using get_count_nonneg [of rb nr "bs - i"] by simp
  with "0.prems"(1) have "\<not> (i < bs \<and> nr \<le> writeCursor rb \<and> i64 (nr - readBarrier rb) < rb_size rb)"
    using get_loop_exit by simp
  then show ?case by (subst get_loop.simps) auto
next
  case (Suc m)
  let ?v = "buffer rb ! slot (rb_size rb) nr"
  let ?rb1 = "rb\<lparr>readCursors := (readCursors rb)[nat cid := nr]\<rparr>"
  have cnt: "0 < get_count rb nr (bs - i)" using Suc.prems(2) by simp
  note enter = get_loop_enter [OF Suc.prems(1) cnt, of ?v]
  have ready0: "available rb ! slot (rb_size rb) nr = 1" using Suc.prems(3) by auto
  have unf: "get_loop rb cid bs nr i i res = get_loop ?rb1 cid bs (nr + 1) (i + 1) (i + 1) (res[nat i := ?v])"
    using enter ready0 by (subst get_loop.simps) simp
  have pre1: "loop_pre ?rb1 cid bs (nr + 1) (i + 1) (res[nat i := ?v])"
    and cnt1: "get_count ?rb1 (nr + 1) (bs - (i + 1)) = get_count rb nr (bs - i) - 1"
    using get_loop_pre_next [OF Suc.prems(1) cnt] by blast+
  have m: "m = nat (get_count ?rb1 (nr + 1) (bs - (i + 1)))" using cnt1 Suc.prems(2) by simp
  have ready1: "\<forall>j<m. available ?rb1 ! slot (rb_size ?rb1) (nr + 1 + int j) = 1"
    using Suc.prems(3) by (auto simp: add.assoc)
  have ih: "get_loop ?rb1 cid bs (nr + 1) (i + 1) (i + 1) (res[nat i := ?v]) =
     Some (Inr (?rb1\<lparr>readCursors := (if m = 0 then readCursors ?rb1
                                    else (readCursors ?rb1)[nat cid := nr + 1 + int m - 1])\<rparr>,
                i + 1 + int m,
                take (nat (i + 1)) (res[nat i := ?v]) @
                map (\<lambda>j. buffer ?rb1 ! slot (rb_size ?rb1) (nr + 1 + int j)) [0..<m] @
                drop (nat (i + 1) + m) (res[nat i := ?v])))"
    by (rule Suc.IH [OF pre1 m ready1])
  have i: "0 \<le> i" "nat i < length res" using Suc.prems(1) enter by (auto simp: loop_pre_def)
  have "nat (i + 1) = Suc (nat i)" using i by simp
  then have lists: "take (nat (i + 1)) (res[nat i := ?v]) @
                map (\<lambda>j. buffer ?rb1 ! slot (rb_size ?rb1) (nr + 1 + int j)) [0..<m] @
                drop (nat (i + 1) + m) (res[nat i := ?v]) =
     take (nat i) res @ map (\<lambda>j. buffer rb ! slot (rb_size rb) (nr + int j)) [0..<Suc m] @
                drop (nat i + Suc m) res"
    using i by (simp add: take_update_Suc drop_update_cancel map_upt_Suc add.assoc del: upt_Suc)
  have curs: "(if m = 0 then readCursors ?rb1 else (readCursors ?rb1)[nat cid := nr + 1 + int m - 1]) =
      (readCursors rb)[nat cid := nr + int (Suc m) - 1]"
    by simp
  show ?case using unf ih lists curs by simp
qed

lemma get_loop_ready:
  assumes "get_loop rb cid bs nr i idx res = Some r"
  shows "loop_pre rb cid bs nr i res \<longrightarrow> idx = i \<longrightarrow>
         (\<forall>j<nat (get_count rb nr (bs - i)). available rb ! slot (rb_size rb) (nr + int j) = 1)"
  apply (rule get_loop.raw_induct [where P = "\<lambda>rb cid bs nr i idx res r.
      loop_pre rb cid bs nr i res \<longrightarrow> idx = i \<longrightarrow>
      (\<forall>j<nat (get_count rb nr (bs - i)). available rb ! slot (rb_size rb) (nr + int j) = 1)",
      OF _ assms])
  subgoal premises prems for f rb cid bs nr i idx res r
  proof (intro impI allI)
    fix j
    assume pre: "loop_pre rb cid bs nr i res" and idx: "idx = i"
      and j: "j < nat (get_count rb nr (bs - i))"
    let ?v = "buffer rb ! slot (rb_size rb) nr"
    let ?rb1 = "rb\<lparr>readCursors := (readCursors rb)[nat cid := nr]\<rparr>"
    have cnt: "0 < get_count rb nr (bs - i)" using j by simp
    note enter = get_loop_enter [OF pre cnt, of ?v]
    show "available rb ! slot (rb_size rb) (nr + int j) = 1"
    proof (cases "available rb ! slot (rb_size rb) nr = 1")
      case True
      then have "f ?rb1 cid bs (nr + 1) (i + 1) (i + 1) (res[nat i := ?v]) = Some r"
        using prems(2) enter idx by simp
      then have ih: "\<forall>j<nat (get_count ?rb1 (nr + 1) (bs - (i + 1))).
                      available ?rb1 ! slot (rb_size ?rb1) (nr + 1 + int j) = 1"
        using prems(1) get_loop_pre_next(1) [OF pre cnt] by blast
      show ?thesis
      proof (cases j)
        case 0
        with True show ?thesis by simp
      next
        case (Suc j')
        then have "j' < nat (get_count ?rb1 (nr + 1) (bs - (i + 1)))"
          using j get_loop_pre_next(2) [OF pre cnt] by simp
        with ih Suc show ?thesis by (simp add: add.assoc)
      qed
    next
      case False
      then have "f rb cid bs nr i i res = Some r" using prems(2) enter idx by simp
      then show ?thesis using prems(1) pre j by blast
    qed
  qed
  done

lemma get_loop_spins:
  assumes "loop_pre rb cid bs nr i res"
    and "j < nat (get_count rb nr (bs - i))" and "available rb ! slot (rb_size rb) (nr + int j) \<noteq> 1"
  shows "get_loop rb cid bs nr i i res = None"
proof (rule ccontr)
  assume "get_loop rb cid bs nr i i res \<noteq> None"
  then obtain r where "get_loop rb cid bs nr i i res = Some r" by blast
  from get_loop_ready [OF this] assms show False by blast
qed

section \<open>Get against its reference\<close>

lemma min_cursor_Min: "min_cursor m cs = Min (insert m (set cs))"
proof (induction cs arbitrary: m)
  case Nil
  then show ?case by simp
next
  case (Cons c cs)
  have "min_cursor m (c # cs) = Min (insert (if c < m then c else m) (set cs))"
    by (simp add: Cons.IH)
  also have "\<dots> = Min (insert m (set (c # cs)))"
    by (cases "cs = []") (auto simp: min_def insert_commute)
  finally show ?case .
qed

lemma get_as_ref:
  assumes wf: "rb_wf rb"
  shows "get rb bs cid = get_ref rb bs cid"
proof (cases "0 \<le> cid \<and> cid < int (length (readCursors rb))")
  case False
  then show ?thesis by (simp add: get_def get_ref_def go_nth_out)
next
  case cid: True
  show ?thesis
  proof (cases "bs < 0")
    case True
    with cid show ?thesis by (simp add: get_def get_ref_def go_simps go_make_neg)
  next
    case bs: False
    define c where "c = readCursors rb ! nat cid"
    define k where "k = get_count rb (c + 1) bs"
    define n where "n = nat k"
    let ?res = "replicate (nat bs) (None :: 'a iface)"
    have "c \<in> set (readCursors rb)" using cid by (simp add: c_def nat_less_iff)
    with wf have cb: "-1 \<le> c" "c \<le> writeCursor rb" "readBarrier rb \<le> c + 1"
      by (auto simp: rb_wf_def)
    have nr: "i64 (c + 1) = c + 1"
      using cb wf by (intro i64_small) (auto simp: rb_wf_def seq_limit_def)
    have pre: "loop_pre rb cid bs (c + 1) 0 ?res"
      using wf cid cb bs by (auto simp: loop_pre_def rb_wf_def)
    have k0: "0 \<le> k" by (simp add: k_def get_count_nonneg)
    then have kn: "k = int n" by (simp add: n_def)
    have seqs: "[c + 1..c + k] = map (\<lambda>j. c + 1 + int j) [0..<n]"
      using upto_offsets [of "c + 1" n] kn by simp
    have unf: "get rb bs cid =
      (case get_loop rb cid bs (c + 1) 0 0 ?res of
         None \<Rightarrow> None
       | Some (Inl e) \<Rightarrow> Some (Inl e)
       | Some (Inr (rb', index, res)) \<Rightarrow>
           (let m = min_cursor (readCursors rb' ! nat cid) (readCursors rb')
            in Some (Inr (rb'\<lparr>readBarrier := m\<rparr>, take (nat index) res))))"
      using cid bs nr by (simp add: get_def go_simps c_def)
    show ?thesis
    proof (cases "list_all (slot_ready rb) [c + 1..c + k]")
      case True
      then have ready: "\<forall>j<n. available rb ! slot (rb_size rb) (c + 1 + int j) = 1"
        using seqs by (simp add: slot_ready_def list_all_iff)
      let ?rcs = "(readCursors rb)[nat cid := c + k]"
      have loop: "get_loop rb cid bs (c + 1) 0 0 ?res =
         Some (Inr (rb\<lparr>readCursors := (if n = 0 then readCursors rb
                                    else (readCursors rb)[nat cid := c + 1 + int n - 1])\<rparr>,
                0 + int n,
                take (nat 0) ?res @ map (\<lambda>j. buffer rb ! slot (rb_size rb) (c + 1 + int j)) [0..<n] @
                drop (nat 0 + n) ?res))"
        by (rule get_loop_reads [OF pre _ ready]) (simp add: n_def k_def)
      have rcs: "(if n = 0 then readCursors rb else (readCursors rb)[nat cid := c + 1 + int n - 1]) = ?rcs"
        using kn by (auto simp: c_def)
      have "nat cid < length ?rcs" using cid by (simp add: nat_less_iff)
      then have "?rcs ! nat cid \<in> set ?rcs" by (rule nth_mem)
      then have mn: "min_cursor (?rcs ! nat cid) ?rcs = Min (set ?rcs)"
        by (simp only: min_cursor_Min insert_absorb)
      have vals: "map (\<lambda>j. buffer rb ! slot (rb_size rb) (c + 1 + int j)) [0..<n] =
                  map (slot_value rb) [c + 1..c + k]"
        by (simp add: seqs slot_value_def)
      have len: "length (map (slot_value rb) [c + 1..c + k]) = n"
        using vals [symmetric] by simp
      have nk: "nat k = n" by (simp add: n_def)
      show ?thesis
        using cid bs True unf loop rcs mn vals len nk
        by (simp add: get_ref_def c_def [symmetric] k_def [symmetric] Let_def)
    next
      case False
      then obtain j where j: "j < n" and nj: "available rb ! slot (rb_size rb) (c + 1 + int j) \<noteq> 1"
        using seqs by (auto simp: slot_ready_def list_all_iff)
      have "get_loop rb cid bs (c + 1) 0 0 ?res = None"
        using get_loop_spins [OF pre _ nj] j by (simp add: n_def k_def)
      then show ?thesis
        using cid bs False unf by (simp add: get_ref_def c_def [symmetric] k_def [symmetric] Let_def)
    qed
  qed
qed

lemma get_ref_wf:
  assumes wf: "rb_wf rb" and r: "get_ref rb bs cid = Some (Inr (rb', out))"
  shows "rb_wf rb'"
proof -
  have cid: "0 \<le> cid" "cid < int (length (readCursors rb))" and bs: "0 \<le> bs"
    using r by (auto simp: get_ref_def split: if_splits)
  define c where "c = readCursors rb ! nat cid"
  define k where "k = get_count rb (c + 1) bs"
  let ?rcs = "(readCursors rb)[nat cid := c + k]"
  have rb': "rb' = rb\<lparr>readCursors := ?rcs, readBarrier := Min (set ?rcs)\<rparr>"
    using r cid bs by (auto simp: get_ref_def c_def [symmetric] k_def [symmetric] Let_def split: if_splits)
  have "c \<in> set (readCursors rb)" using cid by (simp add: c_def nat_less_iff)
  with wf have c: "-1 \<le> c" "c \<le> writeCursor rb" by (auto simp: rb_wf_def)
  have k0: "0 \<le> k" by (simp add: k_def get_count_nonneg)
  have kw: "c + k \<le> writeCursor rb" using c unfolding k_def get_count_def by linarith
  have bounds: "\<forall>x\<in>set ?rcs. -1 \<le> x \<and> x \<le> writeCursor rb"
  proof
    fix x assume "x \<in> set ?rcs"
    then have "x \<in> insert (c + k) (set (readCursors rb))" by (rule subsetD [OF set_update_subset_insert])
    then show "-1 \<le> x \<and> x \<le> writeCursor rb" using wf c k0 kw by (auto simp: rb_wf_def)
  qed
  have ne: "set ?rcs \<noteq> {}" using cid by auto
  have "-1 \<le> Min (set ?rcs)" using bounds ne by (simp add: Min_ge_iff)
  moreover have "\<forall>x\<in>set ?rcs. Min (set ?rcs) \<le> x + 1"
  proof
    fix x assume "x \<in> set ?rcs"
    then have "Min (set ?rcs) \<le> x" by (simp add: Min_le)
    then show "Min (set ?rcs) \<le> x + 1" by simp
  qed
  ultimately show ?thesis using wf bounds rb' by (auto simp: rb_wf_def)
qed

text \<open>
  C1: under the invariant, \<open>Get\<close> computes exactly its reference: the same panics, the
  same returned values and new state, and it spins forever exactly when a sequence of its
  read window has an unflagged slot.
\<close>

theorem get_eq_ref:
  assumes "rb_wf rb"
  shows "get rb batchSize consumerId = get_ref rb batchSize consumerId"
  using assms by (rule get_as_ref)

theorem get_eq_ref_witness:
  "rb_wf ex_ring3 \<and> get ex_ring3 2 0 = get_ref ex_ring3 2 0"
  using get_eq_ref [OF ex_ring3_wf, of 2 0] ex_ring3_wf by blast

lemma ex_ring3_get:
  "get ex_ring3 2 0 = Some (Inr (ex_ring3\<lparr>readCursors := [1], readBarrier := 1\<rparr>, [Some 1, Some 2]))"
  by code_simp

lemma get_ref_Inr:
  assumes "get_ref rb bs cid = Some (Inr (rb', out))"
  shows "0 \<le> cid \<and> cid < int (length (readCursors rb)) \<and> 0 \<le> bs \<and>
         out = map (slot_value rb)
                 [readCursors rb ! nat cid + 1..readCursors rb ! nat cid +
                    get_count rb (readCursors rb ! nat cid + 1) bs] \<and>
         rb' = rb\<lparr>readCursors := (readCursors rb)[nat cid := readCursors rb ! nat cid +
                    get_count rb (readCursors rb ! nat cid + 1) bs],
                  readBarrier := Min (set ((readCursors rb)[nat cid := readCursors rb ! nat cid +
                    get_count rb (readCursors rb ! nat cid + 1) bs]))\<rparr>"
  using assms by (auto simp: get_ref_def Let_def split: if_splits)

text \<open>
  C7: \<open>Get\<close> keeps the invariant of the record.
\<close>

theorem get_wf:
  assumes "rb_wf rb" and "get rb batchSize consumerId = Some (Inr (rb', out))"
  shows "rb_wf rb'"
  using assms get_as_ref [OF assms(1)] get_ref_wf by metis

text \<open>
  C9: the only panics of \<open>Get\<close> are an out-of-range \<open>consumerId\<close> (index out of range on
  \<open>readCursors\<close>) and, for a valid id, a negative \<open>batchSize\<close> (\<open>make\<close> with a negative
  length); \<open>batchSize = 0\<close> is no error.
\<close>

theorem get_errors:
  assumes "rb_wf rb"
  shows "get rb batchSize consumerId = Some (Inl e) \<longleftrightarrow>
         (if 0 \<le> consumerId \<and> consumerId < int (length (readCursors rb))
          then batchSize < 0 \<and> e = MakeSliceLenOutOfRange else e = IndexOutOfRange)"
  using get_as_ref [OF assms] by (auto simp: get_ref_def Let_def)

text \<open>
  C12: the consumer's cursor advances by exactly the number of values \<open>Get\<close> returns, which is
  at most \<open>batchSize\<close>; no other cursor, and neither the slots nor the write cursor, change.
\<close>

theorem get_cursor_advance:
  assumes "rb_wf rb" and "get rb batchSize consumerId = Some (Inr (rb', out))"
  shows "readCursors rb' = (readCursors rb)[nat consumerId :=
            readCursors rb ! nat consumerId + int (length out)] \<and>
         length out \<le> nat batchSize \<and>
         buffer rb' = buffer rb \<and> available rb' = available rb \<and>
         writeCursor rb' = writeCursor rb \<and> rb_size rb' = rb_size rb"
proof -
  have r: "get_ref rb batchSize consumerId = Some (Inr (rb', out))"
    using assms get_as_ref [OF assms(1)] by simp
  note facts = get_ref_Inr [OF r]
  let ?k = "get_count rb (readCursors rb ! nat consumerId + 1) batchSize"
  have "0 \<le> ?k" "?k \<le> batchSize" using facts by (simp_all add: get_count_def)
  then show ?thesis using facts by simp
qed

text \<open>
  C13: after \<open>Get\<close>, \<open>readBarrier\<close> is the least of all consumers' cursors, taken after
  the caller's cursor has advanced.
\<close>

theorem get_barrier_min:
  assumes "rb_wf rb" and "get rb batchSize consumerId = Some (Inr (rb', out))"
  shows "readBarrier rb' = Min (set (readCursors rb'))"
proof -
  have r: "get_ref rb batchSize consumerId = Some (Inr (rb', out))"
    using assms get_as_ref [OF assms(1)] by simp
  then show ?thesis using get_ref_Inr [OF r] by simp
qed

theorem get_wf_witness:
  "rb_wf ex_ring3 \<and>
   get ex_ring3 2 0 = Some (Inr (ex_ring3\<lparr>readCursors := [1], readBarrier := 1\<rparr>, [Some 1, Some 2])) \<and>
   rb_wf (ex_ring3\<lparr>readCursors := [1], readBarrier := 1\<rparr>)"
  using get_wf [OF ex_ring3_wf ex_ring3_get] ex_ring3_wf ex_ring3_get by blast

theorem get_errors_witness:
  "rb_wf ex_ring3 \<and>
   (get ex_ring3 2 5 = Some (Inl IndexOutOfRange) \<longleftrightarrow>
    (if 0 \<le> (5::int) \<and> 5 < int (length (readCursors ex_ring3))
     then (2::int) < 0 \<and> IndexOutOfRange = MakeSliceLenOutOfRange else IndexOutOfRange = IndexOutOfRange))"
  using get_errors [OF ex_ring3_wf, of 2 5 IndexOutOfRange] ex_ring3_wf by blast

theorem get_cursor_advance_witness:
  "rb_wf ex_ring3 \<and>
   get ex_ring3 2 0 = Some (Inr (ex_ring3\<lparr>readCursors := [1], readBarrier := 1\<rparr>, [Some 1, Some 2])) \<and>
   readCursors (ex_ring3\<lparr>readCursors := [1], readBarrier := 1\<rparr>) =
     (readCursors ex_ring3)[nat 0 := readCursors ex_ring3 ! nat 0 + int (length [Some (1::nat), Some 2])] \<and>
   length [Some (1::nat), Some 2] \<le> nat 2 \<and>
   buffer (ex_ring3\<lparr>readCursors := [1], readBarrier := 1\<rparr>) = buffer ex_ring3 \<and>
   available (ex_ring3\<lparr>readCursors := [1], readBarrier := 1\<rparr>) = available ex_ring3 \<and>
   writeCursor (ex_ring3\<lparr>readCursors := [1], readBarrier := 1\<rparr>) = writeCursor ex_ring3 \<and>
   rb_size (ex_ring3\<lparr>readCursors := [1], readBarrier := 1\<rparr>) = rb_size ex_ring3"
  using get_cursor_advance [OF ex_ring3_wf ex_ring3_get] ex_ring3_wf ex_ring3_get by blast

theorem get_barrier_min_witness:
  "rb_wf ex_ring3 \<and>
   get ex_ring3 2 0 = Some (Inr (ex_ring3\<lparr>readCursors := [1], readBarrier := 1\<rparr>, [Some 1, Some 2])) \<and>
   readBarrier (ex_ring3\<lparr>readCursors := [1], readBarrier := 1\<rparr>) =
     Min (set (readCursors (ex_ring3\<lparr>readCursors := [1], readBarrier := 1\<rparr>)))"
  using get_barrier_min [OF ex_ring3_wf ex_ring3_get] ex_ring3_wf ex_ring3_get by blast

end
