(* ===== verification/Published.thy ===== *)
theory Published
  imports GetLoop
begin

text \<open>
  What the ring buffer promises, as an abstract broadcast queue: the stream of every value
  published so far and, per consumer, how many of them it has consumed. The concrete
  record refines it through \<open>rb_holds\<close> (the slots hold the stream) and the abstraction
  \<open>rb_abs\<close> (a consumer whose cursor is \<open>c\<close> has consumed \<open>c + 1\<close> values).
\<close>

record 'v bqueue =
  stream :: "'v iface list"
  consumed :: "nat list"

definition bq_put :: "'v bqueue \<Rightarrow> 'v iface list \<Rightarrow> 'v bqueue" where
  "bq_put q data = q\<lparr>stream := stream q @ data\<rparr>"

definition bq_get :: "'v bqueue \<Rightarrow> nat \<Rightarrow> nat \<Rightarrow> 'v iface list \<times> 'v bqueue" where
  "bq_get q i k =
     (take k (drop (consumed q ! i) (stream q)), q\<lparr>consumed := (consumed q)[i := consumed q ! i + k]\<rparr>)"

definition rb_abs :: "'v ring_buffer \<Rightarrow> 'v iface list \<Rightarrow> 'v bqueue" where
  "rb_abs rb st = \<lparr>stream = st, consumed = map (\<lambda>c. nat (c + 1)) (readCursors rb)\<rparr>"

lemma map_nth_upto:
  assumes "0 \<le> a" and "nat a + k \<le> length st"
  shows "map (\<lambda>s. st ! nat s) [a..a + int k - 1] = take k (drop (nat a) st)"
proof -
  have "map (\<lambda>s. st ! nat s) [a..a + int k - 1] = map (\<lambda>j. st ! (nat a + j)) [0..<k]"
    using assms(1) by (simp add: upto_offsets nat_add_distrib)
  also have "\<dots> = take k (drop (nat a) st)"
    using assms(2) by (intro nth_equalityI) auto
  finally show ?thesis .
qed

text \<open>Inside the window of the last \<open>size\<close> sequences, a slot shows its sequence's value.\<close>

lemma holds_window:
  assumes "rb_holds rb st" and "0 \<le> s" and "s < writeCursor rb" and "writeCursor rb \<le> s + rb_size rb"
  shows "slot_ready rb s \<and> slot_value rb s = st ! nat s"
  using assms by (auto simp: rb_holds_def slots_hold_iff slot_ready_def slot_value_def)

lemma get_ref_window:
  assumes wf: "rb_wf rb" and hold: "rb_holds rb st"
    and cid: "0 \<le> cid" "cid < int (length (readCursors rb))" and bs: "0 \<le> bs"
    and c: "c = readCursors rb ! nat cid"
    and lap: "writeCursor rb - rb_size rb \<le> c + 1"
    and below: "c + get_count rb (c + 1) bs < writeCursor rb"
  shows "get_ref rb bs cid =
           Some (Inr (rb\<lparr>readCursors := (readCursors rb)[nat cid := c + get_count rb (c + 1) bs],
                         readBarrier := Min (set ((readCursors rb)[nat cid := c + get_count rb (c + 1) bs]))\<rparr>,
                      take (nat (get_count rb (c + 1) bs)) (drop (nat (c + 1)) st)))"
proof -
  let ?k = "get_count rb (c + 1) bs"
  have "c \<in> set (readCursors rb)" using cid by (simp add: c nat_less_iff)
  with wf have c1: "-1 \<le> c" by (auto simp: rb_wf_def)
  have k0: "0 \<le> ?k" by (rule get_count_nonneg)
  have win: "\<And>s. s \<in> set [c + 1..c + ?k] \<Longrightarrow> slot_ready rb s \<and> slot_value rb s = st ! nat s"
    using lap below c1 by (intro holds_window [OF hold]) auto
  then have ready: "list_all (slot_ready rb) [c + 1..c + ?k]" by (simp add: list_all_iff)
  have "map (slot_value rb) [c + 1..c + ?k] = map (\<lambda>s. st ! nat s) [c + 1..c + ?k]"
    using win by simp
  also have "\<dots> = take (nat ?k) (drop (nat (c + 1)) st)"
    using map_nth_upto [of "c + 1" "nat ?k" st] c1 k0 below hold by (simp add: rb_holds_def)
  finally have vals: "map (slot_value rb) [c + 1..c + ?k] = take (nat ?k) (drop (nat (c + 1)) st)" .
  show ?thesis using cid bs ready vals by (simp add: get_ref_def c [symmetric] Let_def)
qed

lemma holds_all_flagged:
  assumes hold: "rb_holds rb st" and pos: "0 < rb_size rb" and full: "rb_size rb \<le> writeCursor rb"
  shows "slot_ready rb s"
proof -
  let ?n = "rb_size rb" and ?w = "writeCursor rb"
  define s' where "s' = ?w - ?n + (s - (?w - ?n)) mod ?n"
  have r: "0 \<le> (s - (?w - ?n)) mod ?n" "(s - (?w - ?n)) mod ?n < ?n" using pos by simp_all
  have "s' mod ?n = s mod ?n" by (simp add: s'_def mod_add_right_eq)
  then have same: "slot ?n s' = slot ?n s" by (simp add: slot_def)
  have "0 \<le> s'" "s' < ?w" "?w \<le> s' + ?n" using r full by (simp_all add: s'_def)
  then have "slot_ready rb s'" using holds_window [OF hold, of s'] by simp
  with same show ?thesis by (simp add: slot_ready_def)
qed

lemma get_count_le: "0 \<le> b \<Longrightarrow> get_count rb nr b \<le> b"
  by (simp add: get_count_def)

text \<open>
  The state after a \<open>Get\<close> inside the window, as one lemma for the refinement and the run
  theorems: the slots are untouched, the caller's cursor moves by the window's size.
\<close>

lemma get_in_window:
  assumes wf: "rb_wf rb" and hold: "rb_holds rb st"
    and cid: "0 \<le> cid" "cid < int (length (readCursors rb))" and bs: "0 \<le> bs"
    and lap: "writeCursor rb - rb_size rb \<le> readCursors rb ! nat cid + 1"
    and below: "readCursors rb ! nat cid + bs < writeCursor rb"
  defines "c \<equiv> readCursors rb ! nat cid"
  defines "k \<equiv> get_count rb (readCursors rb ! nat cid + 1) bs"
  shows "get rb bs cid =
           Some (Inr (rb\<lparr>readCursors := (readCursors rb)[nat cid := c + k],
                         readBarrier := Min (set ((readCursors rb)[nat cid := c + k]))\<rparr>,
                      take (nat k) (drop (nat (c + 1)) st))) \<and>
         0 \<le> k \<and> k \<le> bs \<and> c + k < writeCursor rb \<and> -1 \<le> c \<and>
         rb_wf (rb\<lparr>readCursors := (readCursors rb)[nat cid := c + k],
                   readBarrier := Min (set ((readCursors rb)[nat cid := c + k]))\<rparr>)"
proof -
  let ?rcs = "(readCursors rb)[nat cid := c + k]"
  let ?rb' = "rb\<lparr>readCursors := ?rcs, readBarrier := Min (set ?rcs)\<rparr>"
  have "c \<in> set (readCursors rb)" using cid by (simp add: c_def nat_less_iff)
  with wf have c1: "-1 \<le> c" by (auto simp: rb_wf_def)
  have k: "0 \<le> k" "k \<le> bs" using bs by (simp_all add: k_def get_count_nonneg get_count_le)
  have ref: "get_ref rb bs cid = Some (Inr (?rb', take (nat k) (drop (nat (c + 1)) st)))"
    using get_ref_window [OF wf hold cid bs refl] lap below k by (simp add: c_def k_def)
  have "get rb bs cid = Some (Inr (?rb', take (nat k) (drop (nat (c + 1)) st)))"
    using get_as_ref [OF wf] ref by simp
  moreover have "rb_wf ?rb'" using get_ref_wf [OF wf ref] .
  moreover have "c + k < writeCursor rb" using below k by (simp add: c_def)
  ultimately show ?thesis using k c1 by simp
qed

text \<open>
  C2: refinement of the abstract broadcast queue by \<open>Get\<close>. When the consumer has not
  been lapped by the producer (its next sequence is still among the last \<open>size\<close>
  written) and asks for fewer values than have been published past its cursor, \<open>Get\<close>
  returns and behaves as the abstract \<open>bq_get\<close>: it hands out the next \<open>k \<le> batchSize\<close>
  values of the stream in order and advances the consumer by \<open>k\<close>, with \<open>k = batchSize\<close>
  unless the read barrier holds it back; the slots still hold the stream and the invariant
  is kept.
\<close>

theorem get_refines:
  assumes wf: "rb_wf rb" and hold: "rb_holds rb st"
    and cid: "0 \<le> cid" "cid < int (length (readCursors rb))" and bs: "0 \<le> bs"
    and lap: "writeCursor rb - rb_size rb \<le> readCursors rb ! nat cid + 1"
    and below: "readCursors rb ! nat cid + bs < writeCursor rb"
  shows "\<exists>rb' k out. get rb bs cid = Some (Inr (rb', out)) \<and> k \<le> nat bs \<and>
           (readCursors rb ! nat cid + bs < readBarrier rb + rb_size rb \<longrightarrow> k = nat bs) \<and>
           (out, rb_abs rb' st) = bq_get (rb_abs rb st) (nat cid) k \<and>
           rb_holds rb' st \<and> rb_wf rb'"
proof -
  define c where "c = readCursors rb ! nat cid"
  define k where "k = get_count rb (readCursors rb ! nat cid + 1) bs"
  let ?rcs = "(readCursors rb)[nat cid := c + k]"
  let ?rb' = "rb\<lparr>readCursors := ?rcs, readBarrier := Min (set ?rcs)\<rparr>"
  note w = get_in_window [OF wf hold cid bs lap below, folded c_def k_def]
  have nk: "nat (c + k + 1) = nat (c + 1) + nat k" using w by arith
  have gate: "c + bs < readBarrier rb + rb_size rb \<longrightarrow> nat k = nat bs"
    using below by (auto simp: k_def get_count_def c_def)
  have abs: "(take (nat k) (drop (nat (c + 1)) st), rb_abs ?rb' st) =
               bq_get (rb_abs rb st) (nat cid) (nat k)"
    using cid nk by (simp add: bq_get_def rb_abs_def c_def [symmetric] map_update nat_less_iff)
  have "rb_holds ?rb' st" using hold by (simp add: rb_holds_def)
  then show ?thesis
    using w gate abs by (intro exI [of _ ?rb'] exI [of _ "nat k"]) (auto simp: c_def)
qed

text \<open>
  C3: refinement of the abstract broadcast queue by \<open>Put\<close>. With a positive capacity and
  the sequence numbers below \<open>seq_limit\<close>, \<open>Put(data)\<close> returns without panicking and
  appends \<open>data\<close> to the published stream (\<open>bq_put\<close>), keeping the invariant.
\<close>

theorem put_refines:
  assumes "rb_wf rb" and "rb_holds rb st" and "0 < rb_size rb"
    and "writeCursor rb + int (length data) \<le> seq_limit"
  shows "\<exists>rb'. put rb data = Inr rb' \<and> rb_abs rb' (st @ data) = bq_put (rb_abs rb st) data \<and>
           rb_holds rb' (st @ data) \<and> rb_wf rb'"
  using put_holds [OF assms] by (auto simp: rb_abs_def bq_put_def)


lemma get_ref_ready:
  assumes "0 \<le> cid" "cid < int (length (readCursors rb))" "0 \<le> bs"
    and "c = readCursors rb ! nat cid"
    and "list_all (slot_ready rb) [c + 1..c + get_count rb (c + 1) bs]"
  shows "\<exists>r. get_ref rb bs cid = Some r"
  using assms by (simp add: get_ref_def Let_def)

text \<open>
  C4: termination of \<open>Get\<close>. With a valid consumer id and a non-negative batch size,
  \<open>Get\<close> returns (is not stuck in its spin loop) when the batch stays below the write
  cursor or when the ring has wrapped once, so that every slot has been flagged.
\<close>

theorem get_terminates:
  assumes wf: "rb_wf rb" and hold: "rb_holds rb st"
    and cid: "0 \<le> cid" "cid < int (length (readCursors rb))" and bs: "0 \<le> bs"
    and enough: "readCursors rb ! nat cid + bs < writeCursor rb \<or> rb_size rb \<le> writeCursor rb"
  shows "\<exists>r. get rb bs cid = Some r"
proof -
  define c where "c = readCursors rb ! nat cid"
  define k where "k = get_count rb (c + 1) bs"
  have "c \<in> set (readCursors rb)" using cid by (simp add: c_def nat_less_iff)
  with wf have c: "-1 \<le> c" "c \<le> writeCursor rb" "readBarrier rb \<le> c + 1"
    by (auto simp: rb_wf_def)
  have kw: "c + k \<le> writeCursor rb" "k \<le> bs" "0 < k \<Longrightarrow> c + 1 < readBarrier rb + rb_size rb"
    using bs c unfolding k_def get_count_def by linarith+
  have "\<forall>s\<in>set [c + 1..c + k]. slot_ready rb s"
  proof
    fix s assume s: "s \<in> set [c + 1..c + k]"
    then have s1: "c + 1 \<le> s" "s \<le> c + k" by auto
    show "slot_ready rb s"
    proof (cases "rb_size rb \<le> writeCursor rb")
      case True
      have pos: "0 < rb_size rb" using s1 kw c by linarith
      show ?thesis by (rule holds_all_flagged [OF hold pos True])
    next
      case False
      with enough have "c + bs < writeCursor rb" by (simp add: c_def)
      then show ?thesis using holds_window [OF hold, of s] s1 kw c False by simp
    qed
  qed
  then have "list_all (slot_ready rb) [c + 1..c + k]" by (simp add: list_all_iff)
  then show ?thesis
    using get_ref_ready [OF cid bs c_def] get_as_ref [OF wf] by (simp add: k_def)
qed

text \<open>
  C5: \<open>Get\<close> compares \<open>nextRead \<le> writeCursor\<close> although \<open>writeCursor\<close> counts the
  claimed sequences, so it also tries to read sequence \<open>writeCursor\<close>, which no producer
  has claimed. Before the ring has wrapped that slot was never flagged: a consumer that asks
  for more values than were published (and is not held back by the barrier) spins in
  \<open>time.Sleep\<close> forever unless another producer runs.
\<close>

theorem get_spins_forever:
  assumes wf: "rb_wf rb" and hold: "rb_holds rb st"
    and cid: "0 \<le> cid" "cid < int (length (readCursors rb))"
    and behind: "readCursors rb ! nat cid < writeCursor rb"
    and asks: "writeCursor rb \<le> readCursors rb ! nat cid + bs"
    and gate: "writeCursor rb < readBarrier rb + rb_size rb"
    and unwrapped: "writeCursor rb < rb_size rb"
  shows "get rb bs cid = None"
proof -
  define c where "c = readCursors rb ! nat cid"
  have "c \<in> set (readCursors rb)" using cid by (simp add: c_def nat_less_iff)
  with wf have c: "-1 \<le> c" by (auto simp: rb_wf_def)
  have bs: "0 \<le> bs" using asks behind by (simp add: c_def)
  have k: "get_count rb (c + 1) bs = writeCursor rb - c"
    using asks gate behind by (auto simp: get_count_def c_def)
  have w: "writeCursor rb \<in> set [c + 1..c + get_count rb (c + 1) bs]"
    using k behind by (simp add: c_def)
  have w0: "0 \<le> writeCursor rb" using wf by (simp add: rb_wf_def)
  have hs: "\<forall>j. int (length st) \<le> j \<and> j < rb_size rb \<longrightarrow> available rb ! nat j = 0"
    and wl: "writeCursor rb = int (length st)"
    using hold by (simp_all add: rb_holds_def slots_hold_iff)
  have "available rb ! nat (writeCursor rb) = 0"
    using hs [rule_format, of "writeCursor rb"] wl unwrapped by simp
  then have "available rb ! slot (rb_size rb) (writeCursor rb) = 0"
    using w0 unwrapped by (simp add: slot_small)
  then have "\<not> slot_ready rb (writeCursor rb)" by (simp add: slot_ready_def)
  with w have "\<not> list_all (slot_ready rb) [c + 1..c + get_count rb (c + 1) bs]"
    by (auto simp: list_all_iff)
  then show ?thesis
    using get_as_ref [OF wf] cid bs by (simp add: get_ref_def c_def [symmetric] Let_def)
qed


lemma slot_value_wrap: "slot_value rb (s + rb_size rb) = slot_value rb s"
  by (simp add: slot_value_def slot_def)

text \<open>
  C6: after the ring has wrapped, the same off-by-one makes \<open>Get\<close> read the slot of the
  unclaimed sequence \<open>writeCursor\<close>: the consumer receives every value published after its
  cursor and then, as one more value, the stale value of sequence \<open>writeCursor - size\<close>;
  its cursor moves to \<open>writeCursor\<close>, so the next published value is skipped.
\<close>

theorem get_stale_read:
  assumes wf: "rb_wf rb" and hold: "rb_holds rb st"
    and cid: "0 \<le> cid" "cid < int (length (readCursors rb))"
    and behind: "readCursors rb ! nat cid < writeCursor rb"
    and asks: "writeCursor rb \<le> readCursors rb ! nat cid + bs"
    and gate: "writeCursor rb < readBarrier rb + rb_size rb"
    and lap: "writeCursor rb - rb_size rb \<le> readCursors rb ! nat cid + 1"
    and pos: "0 < rb_size rb" and wrapped: "rb_size rb \<le> writeCursor rb"
  shows "\<exists>rb'. get rb bs cid =
            Some (Inr (rb', drop (nat (readCursors rb ! nat cid + 1)) st @
                            [st ! nat (writeCursor rb - rb_size rb)])) \<and>
          readCursors rb' ! nat cid = writeCursor rb"
proof -
  define c where "c = readCursors rb ! nat cid"
  let ?w = "writeCursor rb" and ?n = "rb_size rb"
  have "c \<in> set (readCursors rb)" using cid by (simp add: c_def nat_less_iff)
  with wf have c: "-1 \<le> c" by (auto simp: rb_wf_def)
  have bs: "0 \<le> bs" using asks behind by (simp add: c_def)
  have k: "c + get_count rb (c + 1) bs = ?w"
    using asks gate behind by (auto simp: get_count_def c_def)
  have wl: "?w = int (length st)" using hold by (simp add: rb_holds_def)
  have seqs: "[c + 1..?w] = [c + 1..?w - 1] @ [?w]"
    using behind by (simp add: upto_rec2 c_def)
  have ready: "list_all (slot_ready rb) [c + 1..?w]"
    using holds_all_flagged [OF hold pos wrapped] by (simp add: list_all_iff)
  have early: "map (slot_value rb) [c + 1..?w - 1] = map (\<lambda>s. st ! nat s) [c + 1..?w - 1]"
    using holds_window [OF hold] lap c by (auto simp: c_def)
  have "[c + 1..?w - 1] = [c + 1..(c + 1) + int (nat (?w - c - 1)) - 1]"
    using behind by (simp add: c_def)
  then have "map (\<lambda>s. st ! nat s) [c + 1..?w - 1] = take (nat (?w - c - 1)) (drop (nat (c + 1)) st)"
    using map_nth_upto [of "c + 1" "nat (?w - c - 1)" st] c behind wl by (simp add: c_def)
  also have "\<dots> = drop (nat (c + 1)) st" using wl c by simp
  finally have vals: "map (slot_value rb) [c + 1..?w - 1] = drop (nat (c + 1)) st"
    using early by simp
  have "slot_value rb ?w = slot_value rb (?w - ?n)"
    using slot_value_wrap [of rb "?w - ?n"] by simp
  also have "\<dots> = st ! nat (?w - ?n)"
    using holds_window [OF hold, of "?w - ?n"] pos wrapped by simp
  finally have last: "slot_value rb ?w = st ! nat (?w - ?n)" .
  let ?rcs = "(readCursors rb)[nat cid := ?w]"
  have "get_ref rb bs cid =
          Some (Inr (rb\<lparr>readCursors := ?rcs, readBarrier := Min (set ?rcs)\<rparr>,
                     drop (nat (c + 1)) st @ [st ! nat (?w - ?n)]))"
    using cid bs k ready seqs vals last by (simp add: get_ref_def c_def [symmetric] Let_def)
  moreover have "?rcs ! nat cid = ?w" using cid by (simp add: nat_less_iff)
  ultimately show ?thesis using get_as_ref [OF wf] by (auto simp: c_def)
qed

section \<open>Witnesses\<close>

lemma ex_ring3_holds: "rb_holds ex_ring3 [Some 1, Some 2, Some 3]"
  by (simp add: rb_holds_def slots_hold_def slot_def upto.simps)

lemma ex_wrapped_wf: "rb_wf ex_wrapped"
  by (simp add: rb_wf_def seq_limit_def)

lemma ex_wrapped_holds: "rb_holds ex_wrapped (map Some [1, 2, 3, 4, 5, 6])"
  by (simp add: rb_holds_def slots_hold_def slot_def upto.simps)

theorem get_refines_witness:
  "rb_wf ex_ring3 \<and> rb_holds ex_ring3 [Some 1, Some 2, Some 3] \<and>
   0 \<le> (0::int) \<and> 0 < int (length (readCursors ex_ring3)) \<and> 0 \<le> (2::int) \<and>
   writeCursor ex_ring3 - rb_size ex_ring3 \<le> readCursors ex_ring3 ! nat 0 + 1 \<and>
   readCursors ex_ring3 ! nat 0 + 2 < writeCursor ex_ring3 \<and>
   (\<exists>rb' k out. get ex_ring3 2 0 = Some (Inr (rb', out)) \<and> k \<le> nat 2 \<and>
      (readCursors ex_ring3 ! nat 0 + 2 < readBarrier ex_ring3 + rb_size ex_ring3 \<longrightarrow> k = nat 2) \<and>
      (out, rb_abs rb' [Some 1, Some 2, Some 3]) = bq_get (rb_abs ex_ring3 [Some 1, Some 2, Some 3]) (nat 0) k \<and>
      rb_holds rb' [Some 1, Some 2, Some 3] \<and> rb_wf rb')"
proof -
  have h: "0 \<le> (0::int)" "0 < int (length (readCursors ex_ring3))" "0 \<le> (2::int)"
    "writeCursor ex_ring3 - rb_size ex_ring3 \<le> readCursors ex_ring3 ! nat 0 + 1"
    "readCursors ex_ring3 ! nat 0 + 2 < writeCursor ex_ring3"
    by simp_all
  show ?thesis using get_refines [OF ex_ring3_wf ex_ring3_holds h] ex_ring3_wf ex_ring3_holds h
    by blast
qed

theorem put_refines_witness:
  "rb_wf ex_ring3 \<and> rb_holds ex_ring3 [Some 1, Some 2, Some 3] \<and> 0 < rb_size ex_ring3 \<and>
   writeCursor ex_ring3 + int (length [Some (4::nat)]) \<le> seq_limit \<and>
   (\<exists>rb'. put ex_ring3 [Some 4] = Inr rb' \<and>
      rb_abs rb' ([Some 1, Some 2, Some 3] @ [Some 4]) = bq_put (rb_abs ex_ring3 [Some 1, Some 2, Some 3]) [Some 4] \<and>
      rb_holds rb' ([Some 1, Some 2, Some 3] @ [Some 4]) \<and> rb_wf rb')"
proof -
  have h: "0 < rb_size ex_ring3" "writeCursor ex_ring3 + int (length [Some (4::nat)]) \<le> seq_limit"
    by (simp_all add: seq_limit_def)
  show ?thesis using put_refines [OF ex_ring3_wf ex_ring3_holds h] ex_ring3_wf ex_ring3_holds h
    by blast
qed

theorem get_terminates_witness:
  "rb_wf ex_ring3 \<and> rb_holds ex_ring3 [Some 1, Some 2, Some 3] \<and>
   0 \<le> (0::int) \<and> 0 < int (length (readCursors ex_ring3)) \<and> 0 \<le> (2::int) \<and>
   (readCursors ex_ring3 ! nat 0 + 2 < writeCursor ex_ring3 \<or> rb_size ex_ring3 \<le> writeCursor ex_ring3) \<and>
   (\<exists>r. get ex_ring3 2 0 = Some r)"
proof -
  have h: "0 \<le> (0::int)" "0 < int (length (readCursors ex_ring3))" "0 \<le> (2::int)"
    "readCursors ex_ring3 ! nat 0 + 2 < writeCursor ex_ring3 \<or> rb_size ex_ring3 \<le> writeCursor ex_ring3"
    by simp_all
  show ?thesis using get_terminates [OF ex_ring3_wf ex_ring3_holds h] ex_ring3_wf ex_ring3_holds h
    by blast
qed

theorem get_spins_forever_witness:
  "rb_wf ex_ring3 \<and> rb_holds ex_ring3 [Some 1, Some 2, Some 3] \<and>
   0 \<le> (0::int) \<and> 0 < int (length (readCursors ex_ring3)) \<and>
   readCursors ex_ring3 ! nat 0 < writeCursor ex_ring3 \<and>
   writeCursor ex_ring3 \<le> readCursors ex_ring3 ! nat 0 + 5 \<and>
   writeCursor ex_ring3 < readBarrier ex_ring3 + rb_size ex_ring3 \<and>
   writeCursor ex_ring3 < rb_size ex_ring3 \<and>
   get ex_ring3 5 0 = None"
proof -
  have h: "0 \<le> (0::int)" "0 < int (length (readCursors ex_ring3))"
    "readCursors ex_ring3 ! nat 0 < writeCursor ex_ring3"
    "writeCursor ex_ring3 \<le> readCursors ex_ring3 ! nat 0 + 5"
    "writeCursor ex_ring3 < readBarrier ex_ring3 + rb_size ex_ring3"
    "writeCursor ex_ring3 < rb_size ex_ring3"
    by simp_all
  show ?thesis using get_spins_forever [OF ex_ring3_wf ex_ring3_holds h] ex_ring3_wf ex_ring3_holds h
    by blast
qed

theorem get_stale_read_witness:
  "rb_wf ex_wrapped \<and> rb_holds ex_wrapped (map Some [1, 2, 3, 4, 5, 6]) \<and>
   0 \<le> (0::int) \<and> 0 < int (length (readCursors ex_wrapped)) \<and>
   readCursors ex_wrapped ! nat 0 < writeCursor ex_wrapped \<and>
   writeCursor ex_wrapped \<le> readCursors ex_wrapped ! nat 0 + 5 \<and>
   writeCursor ex_wrapped < readBarrier ex_wrapped + rb_size ex_wrapped \<and>
   writeCursor ex_wrapped - rb_size ex_wrapped \<le> readCursors ex_wrapped ! nat 0 + 1 \<and>
   0 < rb_size ex_wrapped \<and> rb_size ex_wrapped \<le> writeCursor ex_wrapped \<and>
   (\<exists>rb'. get ex_wrapped 5 0 =
       Some (Inr (rb', drop (nat (readCursors ex_wrapped ! nat 0 + 1)) (map Some [1, 2, 3, 4, 5, 6]) @
                       [map Some [1, 2, 3, 4, 5, 6] ! nat (writeCursor ex_wrapped - rb_size ex_wrapped)])) \<and>
     readCursors rb' ! nat 0 = writeCursor ex_wrapped)"
proof -
  have h: "0 \<le> (0::int)" "0 < int (length (readCursors ex_wrapped))"
    "readCursors ex_wrapped ! nat 0 < writeCursor ex_wrapped"
    "writeCursor ex_wrapped \<le> readCursors ex_wrapped ! nat 0 + 5"
    "writeCursor ex_wrapped < readBarrier ex_wrapped + rb_size ex_wrapped"
    "writeCursor ex_wrapped - rb_size ex_wrapped \<le> readCursors ex_wrapped ! nat 0 + 1"
    "0 < rb_size ex_wrapped" "rb_size ex_wrapped \<le> writeCursor ex_wrapped"
    by simp_all
  show ?thesis using get_stale_read [OF ex_wrapped_wf ex_wrapped_holds h] ex_wrapped_wf ex_wrapped_holds h
    by blast
qed

end
