(* ===== verification/Harness.thy ===== *)
theory Harness
  imports Published
begin

text \<open>
  The callers of the ring buffer in \<open>src/lmax.go\<close> and \<open>src/lmax_test.go\<close>.
  \<open>producer\<close> is \<open>Producer\<close> (a call of \<open>Put\<close>); \<open>consumer\<close> is \<open>Consumer\<close>: a loop that
  checks the stop channel at each \<open>select\<close> and otherwise calls \<open>Get\<close> and prints the
  non-nil values. The channel's state at each \<open>select\<close> is an input (\<open>True\<close>: closed), and
  the list of these observations is the finite prefix of the loop that is run. A schedule of
  producer and consumer calls, one after the other, is a list of \<open>op\<close>s run by \<open>run\<close>,
  which collects what each \<open>Get\<close> returned; \<open>session\<close> starts it from
  \<open>NewRingBuffer\<close>.
\<close>

definition producer :: "'v ring_buffer \<Rightarrow> 'v iface list \<Rightarrow> 'v ring_buffer go_result" where
  "producer rb data = put rb data"

fun consumer_loop ::
  "'v ring_buffer \<Rightarrow> int \<Rightarrow> int \<Rightarrow> bool list \<Rightarrow> ('v ring_buffer \<times> 'v list) go_result option" where
  "consumer_loop rb cid bs [] = Some (Inr (rb, []))"
| "consumer_loop rb cid bs (stopped # obs) =
     (if stopped then Some (Inr (rb, []))
      else
        (case get rb bs cid of
           None \<Rightarrow> None
         | Some (Inl e) \<Rightarrow> Some (Inl e)
         | Some (Inr (rb', results)) \<Rightarrow>
             map_option (map_sum id (\<lambda>(rb'', printed). (rb'', List.map_filter id results @ printed)))
               (consumer_loop rb' cid bs obs)))"

definition consumer ::
  "'v ring_buffer \<Rightarrow> int \<Rightarrow> int \<Rightarrow> bool list \<Rightarrow> ('v ring_buffer \<times> 'v list) go_result option" where
  "consumer rb cid bs obs =
     (case go_make bs (None :: 'v iface) of
        Inl e \<Rightarrow> Some (Inl e)
      | Inr _ \<Rightarrow> consumer_loop rb cid bs obs)"

datatype 'v op = Produce "'v iface list" | Consume int int

fun run ::
  "'v ring_buffer \<Rightarrow> 'v op list \<Rightarrow> ('v ring_buffer \<times> (int \<times> 'v iface list) list) go_result option" where
  "run rb [] = Some (Inr (rb, []))"
| "run rb (Produce data # ops) =
     (case producer rb data of
        Inl e \<Rightarrow> Some (Inl e)
      | Inr rb' \<Rightarrow> run rb' ops)"
| "run rb (Consume cid bs # ops) =
     (case get rb bs cid of
        None \<Rightarrow> None
      | Some (Inl e) \<Rightarrow> Some (Inl e)
      | Some (Inr (rb', out)) \<Rightarrow>
          map_option (map_sum id (\<lambda>(rb'', outs). (rb'', (cid, out) # outs))) (run rb' ops))"

definition session :: "int \<Rightarrow> int \<Rightarrow> 'v op list \<Rightarrow> (int \<times> 'v iface list) list go_result option" where
  "session sz numConsumers ops =
     (case new_ring_buffer sz numConsumers of
        Inl e \<Rightarrow> Some (Inl e)
      | Inr rb \<Rightarrow> map_option (map_sum id snd) (run rb ops))"

text \<open>
  \<open>TestBasicFunctionality\<close> (\<open>src/lmax_test.go\<close> lines 9--40): ten \<open>Producer\<close> calls
  of one value each into \<open>NewRingBuffer(10, 2)\<close>, then two goroutines calling
  \<open>Get(5, 0)\<close> and \<open>Get(5, 1)\<close>; the flag chooses which \<open>Get\<close> runs first. The test
  passes when every batch has length 5 (and no \<open>Get\<close> panics or hangs).
\<close>

definition test_basic_functionality_ops :: "bool \<Rightarrow> nat op list" where
  "test_basic_functionality_ops consumer0_first =
     map (\<lambda>i. Produce [Some i]) [0..<10] @
     (if consumer0_first then [Consume 0 5, Consume 1 5] else [Consume 1 5, Consume 0 5])"

definition test_basic_functionality_check :: "bool \<Rightarrow> bool" where
  "test_basic_functionality_check consumer0_first =
     (case session 10 2 (test_basic_functionality_ops consumer0_first) of
        Some (Inr outs) \<Rightarrow> list_all (\<lambda>(_, batch). length batch = 5) outs
      | _ \<Rightarrow> False)"

text \<open>
  A schedule is \<open>disciplined\<close> when each \<open>Put\<close> stays within the cursor bound and
  does not overwrite a slot some consumer has still to read (the gating the code omits), and
  each \<open>Get\<close> names a valid consumer and asks for no more than has been published
  beyond its cursor (so that the off-by-one guard never lets it reach the unwritten slot
  \<open>writeCursor\<close>). \<open>produced\<close> is the data of all \<open>Put\<close>s of the schedule,
  \<open>received\<close> what one consumer got, in order; \<open>not_lapped\<close> says that no consumer
  is a whole ring behind the producer.
\<close>

fun produced :: "'v op list \<Rightarrow> 'v iface list" where
  "produced [] = []"
| "produced (Produce data # ops) = data @ produced ops"
| "produced (Consume cid bs # ops) = produced ops"

definition received :: "(int \<times> 'v iface list) list \<Rightarrow> int \<Rightarrow> 'v iface list" where
  "received outs cid = concat (map snd (filter (\<lambda>(c, _). c = cid) outs))"

fun disciplined :: "'v ring_buffer \<Rightarrow> 'v op list \<Rightarrow> bool" where
  "disciplined rb [] = True"
| "disciplined rb (Produce data # ops) =
     (writeCursor rb + int (length data) \<le> seq_limit \<and>
      list_all (\<lambda>c. writeCursor rb + int (length data) \<le> c + 1 + rb_size rb) (readCursors rb) \<and>
      (case put rb data of Inl e \<Rightarrow> False | Inr rb' \<Rightarrow> disciplined rb' ops))"
| "disciplined rb (Consume cid bs # ops) =
     (0 \<le> cid \<and> cid < int (length (readCursors rb)) \<and> 0 \<le> bs \<and>
      readCursors rb ! nat cid + bs < writeCursor rb \<and>
      (case get rb bs cid of Some (Inr (rb', out)) \<Rightarrow> disciplined rb' ops | _ \<Rightarrow> False))"

definition not_lapped :: "'v ring_buffer \<Rightarrow> bool" where
  "not_lapped rb \<longleftrightarrow> list_all (\<lambda>c. writeCursor rb - rb_size rb \<le> c + 1) (readCursors rb)"

abbreviation ex_fresh :: "nat ring_buffer" where
  "ex_fresh \<equiv> \<lparr>rb_size = 4, buffer = [None, None, None, None], writeCursor = 0,
     readCursors = [-1, -1], available = [0, 0, 0, 0], writeBarrier = 0, readBarrier = 0\<rparr>"
abbreviation ex_ops :: "nat op list" where
  "ex_ops \<equiv> [Produce [Some 1, Some 2], Consume 0 1, Produce [Some 3], Consume 1 2, Consume 0 1]"

lemma received_Nil [simp]: "received [] cid = []"
  by (simp add: received_def)

lemma received_Cons [simp]:
  "received ((c, out) # outs) cid = (if c = cid then out @ received outs cid else received outs cid)"
  by (simp add: received_def)

lemma take_drop_join:
  assumes "a + k \<le> length xs" and "a + k \<le> b"
  shows "take k (drop a xs) @ drop (a + k) (take b xs) = drop a (take b xs)"
proof -
  have "drop a (take b xs) = take k (drop a (take b xs)) @ drop k (drop a (take b xs))"
    by (rule append_take_drop_id [symmetric])
  also have "take k (drop a (take b xs)) = take k (drop a xs)"
    using assms by (simp add: take_drop min_def)
  also have "drop k (drop a (take b xs)) = drop (a + k) (take b xs)" by (simp add: add.commute)
  finally show ?thesis by simp
qed

text \<open>
  C15: a disciplined schedule of \<open>Put\<close> and \<open>Get\<close> calls on a well-formed ring whose
  slots hold the stream \<open>st\<close> runs to the end without panicking or spinning, keeps the
  invariant, and every consumer receives exactly the values published after its cursor,
  each once and in order, up to its new cursor (exactly-once delivery).
\<close>

theorem run_exactly_once:
  assumes "rb_wf rb" and "rb_holds rb st" and "0 < rb_size rb" and "not_lapped rb"
    and "disciplined rb ops"
  shows "\<exists>rb' outs. run rb ops = Some (Inr (rb', outs)) \<and> rb_wf rb' \<and>
           rb_holds rb' (st @ produced ops) \<and>
           length (readCursors rb') = length (readCursors rb) \<and>
           (\<forall>i<length (readCursors rb). readCursors rb ! i \<le> readCursors rb' ! i \<and>
              received outs (int i) =
                drop (nat (readCursors rb ! i + 1)) (take (nat (readCursors rb' ! i + 1)) (st @ produced ops)))"
  using assms
proof (induction ops arbitrary: rb st)
  case Nil
  then show ?case by auto
next
  case (Cons op ops)
  show ?case
  proof (cases op)
    case (Produce data)
    from Cons.prems(5) Produce have lim: "writeCursor rb + int (length data) \<le> seq_limit"
      and gate: "\<forall>c\<in>set (readCursors rb). writeCursor rb + int (length data) \<le> c + 1 + rb_size rb"
      and rest: "\<forall>rb'. put rb data = Inr rb' \<longrightarrow> disciplined rb' ops"
      by (auto simp: list_all_iff split: sum.splits)
    obtain rb1 where p: "put rb data = Inr rb1" and wf1: "rb_wf rb1" and h1: "rb_holds rb1 (st @ data)"
      and rc: "readCursors rb1 = readCursors rb" and sz: "rb_size rb1 = rb_size rb"
      using put_holds [OF Cons.prems(1,2,3) lim] by blast
    have wc1: "writeCursor rb1 = writeCursor rb + int (length data)"
      using h1 Cons.prems(2) by (simp add: rb_holds_def)
    have nl1: "not_lapped rb1" using gate rc sz wc1 by (auto simp: not_lapped_def list_all_iff)
    have d1: "disciplined rb1 ops" using rest p by simp
    obtain rb' outs where
        r: "run rb1 ops = Some (Inr (rb', outs))" and wf': "rb_wf rb'"
        and h': "rb_holds rb' ((st @ data) @ produced ops)"
        and len: "length (readCursors rb') = length (readCursors rb1)"
        and seg: "\<forall>i<length (readCursors rb1). readCursors rb1 ! i \<le> readCursors rb' ! i \<and>
              received outs (int i) =
                drop (nat (readCursors rb1 ! i + 1)) (take (nat (readCursors rb' ! i + 1)) ((st @ data) @ produced ops))"
      using Cons.IH [OF wf1 h1 _ nl1 d1] Cons.prems(3) sz by auto
    show ?thesis
      using Produce p r wf' h' len seg rc by (auto simp: producer_def)
  next
    case (Consume cid bs)
    define c where "c = readCursors rb ! nat cid"
    define k where "k = get_count rb (readCursors rb ! nat cid + 1) bs"
    let ?rcs = "(readCursors rb)[nat cid := c + k]"
    let ?rb1 = "rb\<lparr>readCursors := ?rcs, readBarrier := Min (set ?rcs)\<rparr>"
    let ?out = "take (nat k) (drop (nat (c + 1)) st)"
    from Cons.prems(5) Consume have cid: "0 \<le> cid" "cid < int (length (readCursors rb))"
      and bs: "0 \<le> bs" and below: "readCursors rb ! nat cid + bs < writeCursor rb"
      by auto
    have lap: "writeCursor rb - rb_size rb \<le> readCursors rb ! nat cid + 1"
      using Cons.prems(4) cid by (auto simp: not_lapped_def list_all_iff nat_less_iff)
    note w = get_in_window [OF Cons.prems(1,2) cid bs lap below, folded c_def k_def]
    have g: "get rb bs cid = Some (Inr (?rb1, ?out))" using w by blast
    have ck: "0 \<le> k" "c + k < writeCursor rb" "-1 \<le> c" using w by blast+
    have d1: "disciplined ?rb1 ops" using Cons.prems(5) Consume g by simp
    have h1: "rb_holds ?rb1 st" using Cons.prems(2) by (simp add: rb_holds_def)
    have nl1: "not_lapped ?rb1"
    proof -
      have "\<forall>x\<in>set ?rcs. writeCursor rb - rb_size rb \<le> x + 1"
      proof
        fix x assume "x \<in> set ?rcs"
        then have "x \<in> insert (c + k) (set (readCursors rb))"
          by (rule subsetD [OF set_update_subset_insert])
        then show "writeCursor rb - rb_size rb \<le> x + 1"
          using Cons.prems(4) lap w by (auto simp: not_lapped_def list_all_iff c_def)
      qed
      then show ?thesis by (simp add: not_lapped_def list_all_iff)
    qed
    have wf1: "rb_wf ?rb1" using w by blast
    obtain rb' outs where
        r: "run ?rb1 ops = Some (Inr (rb', outs))" and wf': "rb_wf rb'"
        and h': "rb_holds rb' (st @ produced ops)"
        and len: "length (readCursors rb') = length ?rcs"
        and seg: "\<forall>i<length ?rcs. ?rcs ! i \<le> readCursors rb' ! i \<and>
              received outs (int i) =
                drop (nat (?rcs ! i + 1)) (take (nat (readCursors rb' ! i + 1)) (st @ produced ops))"
      using Cons.IH [OF wf1 h1 _ nl1 d1] Cons.prems(3) by auto
    have run: "run rb (op # ops) = Some (Inr (rb', (cid, ?out) # outs))"
      using Consume g r by simp
    have seg': "\<forall>i<length (readCursors rb). readCursors rb ! i \<le> readCursors rb' ! i \<and>
              received ((cid, ?out) # outs) (int i) =
                drop (nat (readCursors rb ! i + 1)) (take (nat (readCursors rb' ! i + 1)) (st @ produced (op # ops)))"
    proof (intro allI impI)
      fix i assume i: "i < length (readCursors rb)"
      show "readCursors rb ! i \<le> readCursors rb' ! i \<and>
              received ((cid, ?out) # outs) (int i) =
                drop (nat (readCursors rb ! i + 1)) (take (nat (readCursors rb' ! i + 1)) (st @ produced (op # ops)))"
      proof (cases "int i = cid")
        case True
        then have ic: "i = nat cid" by simp
        have s: "?rcs ! i = c + k" using i ic by simp
        have mono: "c + k \<le> readCursors rb' ! i" using seg i s by auto
        have rest: "received outs (int i) =
            drop (nat (c + k + 1)) (take (nat (readCursors rb' ! i + 1)) (st @ produced ops))"
          using seg i s by auto
        have lst: "int (length st) = writeCursor rb" using Cons.prems(2) by (simp add: rb_holds_def)
        have nk: "nat (c + k + 1) = nat (c + 1) + nat k" using w by arith
        have le1: "nat (c + 1) + nat k \<le> length (st @ produced ops)" using ck lst by simp
        have le2: "nat (c + 1) + nat k \<le> nat (readCursors rb' ! i + 1)" using ck mono by arith
        have le0: "nat (c + 1) + nat k \<le> length st" using ck lst by arith
        have out: "?out = take (nat k) (drop (nat (c + 1)) (st @ produced ops))"
          using le0 by simp
        have "?out @ received outs (int i) =
              take (nat k) (drop (nat (c + 1)) (st @ produced ops)) @
              drop (nat (c + 1) + nat k) (take (nat (readCursors rb' ! i + 1)) (st @ produced ops))"
          by (simp only: out rest nk)
        also have "\<dots> = drop (nat (c + 1)) (take (nat (readCursors rb' ! i + 1)) (st @ produced ops))"
          by (rule take_drop_join [OF le1 le2])
        finally have "?out @ received outs (int i) =
              drop (nat (c + 1)) (take (nat (readCursors rb' ! i + 1)) (st @ produced ops))" .
        then show ?thesis using True Consume mono w ic c_def by (simp add: c_def)
      next
        case False
        then have "nat cid \<noteq> i" using cid(1) by auto
        then have "?rcs ! i = readCursors rb ! i" by simp
        then show ?thesis using seg i False Consume by auto
      qed
    qed
    show ?thesis using run wf' h' len seg' Consume by simp
  qed
qed
text \<open>The theorem applied to a fresh four-slot ring with two consumers and five calls.\<close>

theorem run_exactly_once_witness:
  "rb_wf ex_fresh \<and> rb_holds ex_fresh [] \<and> 0 < rb_size ex_fresh \<and> not_lapped ex_fresh \<and>
   disciplined ex_fresh ex_ops \<and>
   (\<exists>rb' outs. run ex_fresh ex_ops = Some (Inr (rb', outs)) \<and> rb_wf rb' \<and>
           rb_holds rb' ([] @ produced ex_ops) \<and>
           length (readCursors rb') = length (readCursors ex_fresh) \<and>
           (\<forall>i<length (readCursors ex_fresh). readCursors ex_fresh ! i \<le> readCursors rb' ! i \<and>
              received outs (int i) =
                drop (nat (readCursors ex_fresh ! i + 1)) (take (nat (readCursors rb' ! i + 1)) ([] @ produced ex_ops))))"
proof -
  have h: "rb_wf ex_fresh \<and> rb_holds ex_fresh [] \<and> 0 < rb_size ex_fresh \<and> not_lapped ex_fresh \<and>
   disciplined ex_fresh ex_ops"
    by code_simp
  then show ?thesis using run_exactly_once [of ex_fresh "[]" ex_ops] by blast
qed
end
