(* ===== verification/Overflow.thy ===== *)
theory Overflow
  imports RingBuffer
begin

text \<open>
  What \<open>src/lmax.go\<close> does at the end of the \<open>int64\<close> range, which the rest of the
  development excludes by the bound \<open>seq_limit\<close>. \<open>Put\<close> adds \<open>len(data)\<close> to
  \<open>writeCursor\<close> with \<open>atomic.AddInt64\<close>, which wraps; nothing checks for it. Once the
  write cursor has wrapped to a negative value, the guard \<open>nextRead <= writeCursor\<close> of
  \<open>Get\<close> fails for every consumer, so every later \<open>Get\<close> returns an empty batch.
\<close>

definition int64_max :: int where
  "int64_max = 2 ^ 63 - 1"

text \<open>
  C16: a one-element \<open>Put\<close> on a ring whose write cursor is the largest \<open>int64\<close> writes
  its value (into slot \<open>int64_max mod size\<close>, no panic) and leaves the write cursor at the
  smallest \<open>int64\<close>, \<open>-2^63\<close>; the consumers' cursors are untouched.
\<close>

theorem put_int64_wrap:
  assumes "0 < rb_size rb" and "length (buffer rb) = nat (rb_size rb)"
    and "length (available rb) = nat (rb_size rb)" and "writeCursor rb = int64_max"
  shows "\<exists>rb'. put rb [d] = Inr rb' \<and> writeCursor rb' = - (2 ^ 63) \<and>
           readCursors rb' = readCursors rb \<and>
           buffer rb' = (buffer rb)[nat (int64_max mod rb_size rb) := d]"
proof -
  have m: "go_mod int64_max (rb_size rb) = Inr (int64_max mod rb_size rb)"
    using assms(1) by (intro go_mod_nonneg) (simp_all add: int64_max_def)
  have r: "0 \<le> int64_max mod rb_size rb" "int64_max mod rb_size rb < int (length (buffer rb))"
    "int64_max mod rb_size rb < int (length (available rb))"
    using assms(1-3) by simp_all
  show ?thesis
    using assms(4) m r by (simp add: put_def i64_def go_update_in int64_max_def)
qed

text \<open>
  C17: after the write cursor has wrapped negative, \<open>Get\<close> by any valid consumer whose
  cursor is in range returns an empty batch and moves no cursor: the consumers starve for
  good, although the ring holds data.
\<close>

theorem get_after_wrap:
  assumes "writeCursor rb < 0" and "0 \<le> cid" and "cid < int (length (readCursors rb))"
    and "0 \<le> bs" and "-1 \<le> readCursors rb ! nat cid" and "readCursors rb ! nat cid < int64_max"
  shows "\<exists>rb'. get rb bs cid = Some (Inr (rb', [])) \<and> readCursors rb' = readCursors rb"
proof -
  let ?c = "readCursors rb ! nat cid"
  have i: "i64 (?c + 1) = ?c + 1"
    using assms(5,6) by (intro i64_id) (simp_all add: int64_max_def)
  have "get_loop rb cid bs (?c + 1) 0 0 (replicate (nat bs) None) =
        Some (Inr (rb, 0, replicate (nat bs) None))"
    using assms(1,5) by (subst get_loop.simps) simp
  then show ?thesis using assms(2-4) i by (simp add: get_def go_simps)
qed

text \<open>Both at a four-slot ring holding three values, its write cursor at the top of the range.\<close>

theorem put_int64_wrap_witness:
  "0 < rb_size (ex_ring3\<lparr>writeCursor := int64_max\<rparr>) \<and>
   length (buffer (ex_ring3\<lparr>writeCursor := int64_max\<rparr>)) = nat (rb_size ex_ring3) \<and>
   length (available (ex_ring3\<lparr>writeCursor := int64_max\<rparr>)) = nat (rb_size ex_ring3) \<and>
   writeCursor (ex_ring3\<lparr>writeCursor := int64_max\<rparr>) = int64_max \<and>
   (\<exists>rb'. put (ex_ring3\<lparr>writeCursor := int64_max\<rparr>) [Some 7] = Inr rb' \<and>
      writeCursor rb' = - (2 ^ 63) \<and> readCursors rb' = readCursors ex_ring3 \<and>
      buffer rb' = (buffer ex_ring3)[nat (int64_max mod rb_size ex_ring3) := Some 7])"
  using put_int64_wrap [of "ex_ring3\<lparr>writeCursor := int64_max\<rparr>" "Some 7"] by simp

theorem get_after_wrap_witness:
  "writeCursor (ex_ring3\<lparr>writeCursor := - (2 ^ 63)\<rparr>) < 0 \<and> (0::int) \<le> 0 \<and>
   0 < int (length (readCursors ex_ring3)) \<and> (0::int) \<le> 2 \<and>
   -1 \<le> readCursors ex_ring3 ! 0 \<and> readCursors ex_ring3 ! 0 < int64_max \<and>
   (\<exists>rb'. get (ex_ring3\<lparr>writeCursor := - (2 ^ 63)\<rparr>) 2 0 = Some (Inr (rb', [])) \<and>
      readCursors rb' = readCursors ex_ring3)"
  using get_after_wrap [of "ex_ring3\<lparr>writeCursor := - (2 ^ 63)\<rparr>" 0 2]
  by (simp add: int64_max_def)

end
