(* ===== verification/Steps.thy ===== *)
theory Steps
  imports RingBuffer
begin

text \<open>
  \<open>Put\<close> and \<open>Get\<close> of \<open>src/lmax.go\<close> cut into their atomic steps, one access to
  the shared record per step, for the interleaving model (theory \<open>Interleaving\<close>). A
  goroutine inside \<open>Put\<close> is at a \<open>put_pc\<close>, one inside \<open>Get\<close> at a \<open>get_pc\<close> whose
  \<open>get_frame\<close> holds Get's local variables; \<open>put_step\<close> and \<open>get_step\<close> perform one
  step. \<open>put_run\<close> and \<open>get_run\<close> run one call's steps with no other goroutine in
  between; \<open>get_run\<close> is a \<^theory_text>\<open>partial_function (option)\<close> because the spin-wait
  may never end. The theorems at the end show that these solo runs are exactly the atomic
  \<open>put\<close> and \<open>get\<close> of theory \<open>RingBuffer\<close>, panics and spinning included, so the two
  models describe the same code. \<open>get_spec\<close> and the \<open>_out\<close> functions give, for each
  program point of \<open>Get\<close>, the result of the rest of the call in terms of \<open>get_loop\<close>;
  they serve the proof.
\<close>

text \<open>The locals of \<open>Get\<close> (the pointer \<open>readCursor\<close> is \<open>&readCursors[g_cid]\<close>).\<close>

record 'v get_frame =
  g_cid :: int                    \<comment> \<open>\<open>consumerId\<close>\<close>
  g_bs :: int                     \<comment> \<open>\<open>batchSize\<close>\<close>
  g_next :: int                   \<comment> \<open>\<open>nextRead\<close>\<close>
  g_i :: int                      \<comment> \<open>\<open>i\<close>\<close>
  g_index :: int                  \<comment> \<open>\<open>index\<close>\<close>
  g_results :: "'v iface list"    \<comment> \<open>\<open>results\<close>\<close>

text \<open>Program points of \<open>Put\<close>: before the \<open>AddInt64\<close>, before the buffer store of the
  next element (the loop head), before its flag store, returned.\<close>

datatype 'v put_pc =
    PutAdd "'v iface list"
  | PutStore int "'v iface list"
  | PutFlag int "'v iface list"
  | PutDone

text \<open>
  Program points of \<open>Get\<close>: the entry (load of the own cursor, \<open>make\<close>); the loop head
  (test of \<open>i\<close>, load of \<open>writeCursor\<close>); the load of \<open>readBarrier\<close>; the load of
  the flag; the copy of the slot; the store of the cursor; the load of the own cursor that
  starts the barrier loop; that loop at element \<open>j\<close> with the minimum so far; the store of
  \<open>readBarrier\<close>; returned. The sleep branch goes back to the loop head.
\<close>

datatype 'v get_pc =
    GetStart int int
  | GetLoop "'v get_frame"
  | GetBarrier "'v get_frame"
  | GetFlag "'v get_frame"
  | GetCopy "'v get_frame"
  | GetStore "'v get_frame"
  | GetMinLoad "'v get_frame"
  | GetMin "'v get_frame" int nat
  | GetPublish "'v get_frame" int
  | GetDone "'v iface list"

fun put_step :: "'v ring_buffer \<Rightarrow> 'v put_pc \<Rightarrow> ('v ring_buffer \<times> 'v put_pc) go_result" where
  "put_step rb (PutAdd data) =
     (let n = int (length data); wc = i64 (writeCursor rb + n)
      in Inr (rb\<lparr>writeCursor := wc\<rparr>, PutStore (i64 (wc - n)) data))"
| "put_step rb (PutStore nextWrite []) = Inr (rb, PutDone)"
| "put_step rb (PutStore nextWrite (d # ds)) =
     (case go_mod nextWrite (rb_size rb) of
        Inl e \<Rightarrow> Inl e
      | Inr k \<Rightarrow>
          (case go_update (buffer rb) k d of
             Inl e \<Rightarrow> Inl e
           | Inr buf \<Rightarrow> Inr (rb\<lparr>buffer := buf\<rparr>, PutFlag nextWrite (d # ds))))"
| "put_step rb (PutFlag nextWrite []) = Inr (rb, PutDone)"
| "put_step rb (PutFlag nextWrite (d # ds)) =
     (case go_mod nextWrite (rb_size rb) of
        Inl e \<Rightarrow> Inl e
      | Inr k \<Rightarrow>
          (case go_update (available rb) k 1 of
             Inl e \<Rightarrow> Inl e
           | Inr av \<Rightarrow> Inr (rb\<lparr>available := av\<rparr>, PutStore (i64 (nextWrite + 1)) ds)))"
| "put_step rb PutDone = Inr (rb, PutDone)"

fun get_step :: "'v ring_buffer \<Rightarrow> 'v get_pc \<Rightarrow> ('v ring_buffer \<times> 'v get_pc) go_result" where
  "get_step rb (GetStart batchSize consumerId) =
     (case go_nth (readCursors rb) consumerId of
        Inl e \<Rightarrow> Inl e
      | Inr c \<Rightarrow>
          (case go_make batchSize None of
             Inl e \<Rightarrow> Inl e
           | Inr results \<Rightarrow>
               Inr (rb, GetLoop \<lparr>g_cid = consumerId, g_bs = batchSize, g_next = i64 (c + 1),
                                  g_i = 0, g_index = 0, g_results = results\<rparr>)))"
| "get_step rb (GetLoop fr) =
     (if g_i fr < g_bs fr \<and> g_next fr \<le> writeCursor rb then Inr (rb, GetBarrier fr)
      else Inr (rb, GetMinLoad fr))"
| "get_step rb (GetBarrier fr) =
     (if i64 (g_next fr - readBarrier rb) < rb_size rb then Inr (rb, GetFlag fr)
      else Inr (rb, GetMinLoad fr))"
| "get_step rb (GetFlag fr) =
     (case go_mod (g_next fr) (rb_size rb) of
        Inl e \<Rightarrow> Inl e
      | Inr k \<Rightarrow>
          (case go_nth (available rb) k of
             Inl e \<Rightarrow> Inl e
           | Inr a \<Rightarrow> (if a = 1 then Inr (rb, GetCopy fr) else Inr (rb, GetLoop fr))))"
| "get_step rb (GetCopy fr) =
     (case go_mod (g_next fr) (rb_size rb) of
        Inl e \<Rightarrow> Inl e
      | Inr k \<Rightarrow>
          (case go_nth (buffer rb) k of
             Inl e \<Rightarrow> Inl e
           | Inr v \<Rightarrow>
               (case go_update (g_results fr) (g_index fr) v of
                  Inl e \<Rightarrow> Inl e
                | Inr results \<Rightarrow> Inr (rb, GetStore (fr\<lparr>g_results := results\<rparr>)))))"
| "get_step rb (GetStore fr) =
     Inr (rb\<lparr>readCursors := (readCursors rb)[nat (g_cid fr) := g_next fr]\<rparr>,
          GetLoop (fr\<lparr>g_next := i64 (g_next fr + 1), g_i := g_i fr + 1, g_index := g_index fr + 1\<rparr>))"
| "get_step rb (GetMinLoad fr) = Inr (rb, GetMin fr (readCursors rb ! nat (g_cid fr)) 0)"
| "get_step rb (GetMin fr m j) =
     (if j < length (readCursors rb) then
        Inr (rb, GetMin fr (if readCursors rb ! j < m then readCursors rb ! j else m) (Suc j))
      else Inr (rb, GetPublish fr m))"
| "get_step rb (GetPublish fr m) =
     Inr (rb\<lparr>readBarrier := m\<rparr>, GetDone (take (nat (g_index fr)) (g_results fr)))"
| "get_step rb (GetDone res) = Inr (rb, GetDone res)"

fun put_weight :: "'v put_pc \<Rightarrow> nat" where
  "put_weight (PutAdd ds) = 2 * length ds + 3"
| "put_weight (PutStore nw ds) = 2 * length ds + 2"
| "put_weight (PutFlag nw ds) = 2 * length ds + 1"
| "put_weight PutDone = 0"

function put_run :: "'v ring_buffer \<Rightarrow> 'v put_pc \<Rightarrow> 'v ring_buffer go_result" where
  "put_run rb pc =
     (if pc = PutDone then Inr rb
      else (case put_step rb pc of
              Inl e \<Rightarrow> Inl e
            | Inr (rb', pc') \<Rightarrow> put_run rb' pc'))"
  by pat_completeness auto
termination
  by (relation "measure (\<lambda>(rb, pc). put_weight pc)")
     (auto elim!: put_step.elims simp: Let_def split: sum.splits)

declare put_run.simps [simp del]

partial_function (option) get_run ::
  "'v ring_buffer \<Rightarrow> 'v get_pc \<Rightarrow> ('v ring_buffer \<times> 'v iface list) go_result option" where
  "get_run rb pc =
     (case pc of
        GetDone res \<Rightarrow> Some (Inr (rb, res))
      | _ \<Rightarrow>
          (case get_step rb pc of
             Inl e \<Rightarrow> Some (Inl e)
           | Inr (rb', pc') \<Rightarrow> get_run rb' pc'))"

declare get_run.simps [code]


definition get_finish ::
  "int \<Rightarrow> ('v ring_buffer \<times> int \<times> 'v iface list) go_result \<Rightarrow>
   ('v ring_buffer \<times> 'v iface list) go_result option" where
  "get_finish consumerId r =
     (case r of
        Inl e \<Rightarrow> Some (Inl e)
      | Inr (rb', index, res) \<Rightarrow>
          Some (Inr (rb'\<lparr>readBarrier := min_cursor (readCursors rb' ! nat consumerId) (readCursors rb')\<rparr>,
                     take (nat index) res)))"

definition loop_out :: "'v ring_buffer \<Rightarrow> 'v get_frame \<Rightarrow> ('v ring_buffer \<times> 'v iface list) go_result option" where
  "loop_out rb fr =
     (case get_loop rb (g_cid fr) (g_bs fr) (g_next fr) (g_i fr) (g_index fr) (g_results fr) of
        None \<Rightarrow> None
      | Some r \<Rightarrow> get_finish (g_cid fr) r)"

definition min_out :: "'v ring_buffer \<Rightarrow> 'v get_frame \<Rightarrow> ('v ring_buffer \<times> 'v iface list) go_result option" where
  "min_out rb fr = get_finish (g_cid fr) (Inr (rb, g_index fr, g_results fr))"

definition store_out :: "'v ring_buffer \<Rightarrow> 'v get_frame \<Rightarrow> ('v ring_buffer \<times> 'v iface list) go_result option" where
  "store_out rb fr =
     loop_out (rb\<lparr>readCursors := (readCursors rb)[nat (g_cid fr) := g_next fr]\<rparr>)
       (fr\<lparr>g_next := i64 (g_next fr + 1), g_i := g_i fr + 1, g_index := g_index fr + 1\<rparr>)"

definition copy_out :: "'v ring_buffer \<Rightarrow> 'v get_frame \<Rightarrow> ('v ring_buffer \<times> 'v iface list) go_result option" where
  "copy_out rb fr =
     (case go_mod (g_next fr) (rb_size rb) of
        Inl e \<Rightarrow> Some (Inl e)
      | Inr k \<Rightarrow>
          (case go_nth (buffer rb) k of
             Inl e \<Rightarrow> Some (Inl e)
           | Inr v \<Rightarrow>
               (case go_update (g_results fr) (g_index fr) v of
                  Inl e \<Rightarrow> Some (Inl e)
                | Inr res \<Rightarrow> store_out rb (fr\<lparr>g_results := res\<rparr>))))"

definition flag_out :: "'v ring_buffer \<Rightarrow> 'v get_frame \<Rightarrow> ('v ring_buffer \<times> 'v iface list) go_result option" where
  "flag_out rb fr =
     (case go_mod (g_next fr) (rb_size rb) of
        Inl e \<Rightarrow> Some (Inl e)
      | Inr k \<Rightarrow>
          (case go_nth (available rb) k of
             Inl e \<Rightarrow> Some (Inl e)
           | Inr a \<Rightarrow> (if a = 1 then copy_out rb fr else loop_out rb fr)))"

fun get_spec :: "'v ring_buffer \<Rightarrow> 'v get_pc \<Rightarrow> ('v ring_buffer \<times> 'v iface list) go_result option" where
  "get_spec rb (GetStart bs cid) = get rb bs cid"
| "get_spec rb (GetLoop fr) = loop_out rb fr"
| "get_spec rb (GetBarrier fr) =
     (if i64 (g_next fr - readBarrier rb) < rb_size rb then flag_out rb fr else min_out rb fr)"
| "get_spec rb (GetFlag fr) = flag_out rb fr"
| "get_spec rb (GetCopy fr) = copy_out rb fr"
| "get_spec rb (GetStore fr) = store_out rb fr"
| "get_spec rb (GetMinLoad fr) = min_out rb fr"
| "get_spec rb (GetMin fr m j) =
     Some (Inr (rb\<lparr>readBarrier := min_cursor m (drop j (readCursors rb))\<rparr>,
                take (nat (g_index fr)) (g_results fr)))"
| "get_spec rb (GetPublish fr m) =
     Some (Inr (rb\<lparr>readBarrier := m\<rparr>, take (nat (g_index fr)) (g_results fr)))"
| "get_spec rb (GetDone res) = Some (Inr (rb, res))"

text \<open>One equation per program point for each run, used in place of the unfolding of the
  whole function (which the simplifier would repeat forever on the spin-wait).\<close>

lemma put_run_Done: "put_run rb PutDone = Inr rb"
  by (rule trans [OF put_run.simps]) simp

lemma put_run_Add:
  "put_run rb (PutAdd ds) =
     put_run (rb\<lparr>writeCursor := i64 (writeCursor rb + int (length ds))\<rparr>)
       (PutStore (i64 (i64 (writeCursor rb + int (length ds)) - int (length ds))) ds)"
  by (rule trans [OF put_run.simps]) (simp add: Let_def)

lemma put_run_Store_Nil: "put_run rb (PutStore nw []) = Inr rb"
  by (rule trans [OF put_run.simps]) (simp add: put_run_Done)

lemma put_run_Store_Cons:
  "put_run rb (PutStore nw (d # ds)) =
     (case go_mod nw (rb_size rb) of
        Inl e \<Rightarrow> Inl e
      | Inr k \<Rightarrow>
          (case go_update (buffer rb) k d of
             Inl e \<Rightarrow> Inl e
           | Inr buf \<Rightarrow> put_run (rb\<lparr>buffer := buf\<rparr>) (PutFlag nw (d # ds))))"
  by (rule trans [OF put_run.simps]) (simp split: sum.split)

lemma put_run_Flag_Cons:
  "put_run rb (PutFlag nw (d # ds)) =
     (case go_mod nw (rb_size rb) of
        Inl e \<Rightarrow> Inl e
      | Inr k \<Rightarrow>
          (case go_update (available rb) k 1 of
             Inl e \<Rightarrow> Inl e
           | Inr av \<Rightarrow> put_run (rb\<lparr>available := av\<rparr>) (PutStore (i64 (nw + 1)) ds)))"
  by (rule trans [OF put_run.simps]) (simp split: sum.split)

lemma put_run_store: "put_run rb (PutStore nw ds) = put_loop rb nw ds"
proof (induction ds arbitrary: rb nw)
  case Nil
  show ?case by (simp add: put_run_Store_Nil)
next
  case (Cons d ds)
  show ?case
    by (simp add: put_run_Store_Cons put_run_Flag_Cons Cons.IH go_update_def split: sum.split)
qed

text \<open>
  The two models of \<open>Put\<close> agree: its atomic steps, run with no other goroutine in between, compute exactly the
  atomic \<open>put\<close>: the same record, or the same panic.
\<close>

theorem put_run_eq: "put_run rb (PutAdd ds) = put rb ds"
  by (simp add: put_run_Add put_def Let_def put_run_store)

lemma get_run_Done: "get_run rb (GetDone res) = Some (Inr (rb, res))"
  by (rule trans [OF get_run.simps]) simp

lemma get_run_Start:
  "get_run rb (GetStart bs cid) =
     (case go_nth (readCursors rb) cid of
        Inl e \<Rightarrow> Some (Inl e)
      | Inr c \<Rightarrow>
          (case go_make bs None of
             Inl e \<Rightarrow> Some (Inl e)
           | Inr results \<Rightarrow>
               get_run rb (GetLoop \<lparr>g_cid = cid, g_bs = bs, g_next = i64 (c + 1),
                                      g_i = 0, g_index = 0, g_results = results\<rparr>)))"
  by (rule trans [OF get_run.simps]) (simp split: sum.split)

lemma get_run_Loop:
  "get_run rb (GetLoop fr) =
     (if g_i fr < g_bs fr \<and> g_next fr \<le> writeCursor rb then get_run rb (GetBarrier fr)
      else get_run rb (GetMinLoad fr))"
  by (rule trans [OF get_run.simps]) simp

lemma get_run_Barrier:
  "get_run rb (GetBarrier fr) =
     (if i64 (g_next fr - readBarrier rb) < rb_size rb then get_run rb (GetFlag fr)
      else get_run rb (GetMinLoad fr))"
  by (rule trans [OF get_run.simps]) simp

lemma get_run_Flag:
  "get_run rb (GetFlag fr) =
     (case go_mod (g_next fr) (rb_size rb) of
        Inl e \<Rightarrow> Some (Inl e)
      | Inr k \<Rightarrow>
          (case go_nth (available rb) k of
             Inl e \<Rightarrow> Some (Inl e)
           | Inr a \<Rightarrow> (if a = 1 then get_run rb (GetCopy fr) else get_run rb (GetLoop fr))))"
  by (rule trans [OF get_run.simps]) (simp split: sum.split)

lemma get_run_Copy:
  "get_run rb (GetCopy fr) =
     (case go_mod (g_next fr) (rb_size rb) of
        Inl e \<Rightarrow> Some (Inl e)
      | Inr k \<Rightarrow>
          (case go_nth (buffer rb) k of
             Inl e \<Rightarrow> Some (Inl e)
           | Inr v \<Rightarrow>
               (case go_update (g_results fr) (g_index fr) v of
                  Inl e \<Rightarrow> Some (Inl e)
                | Inr res \<Rightarrow> get_run rb (GetStore (fr\<lparr>g_results := res\<rparr>)))))"
  by (rule trans [OF get_run.simps]) (simp split: sum.split)

lemma get_run_Store:
  "get_run rb (GetStore fr) =
     get_run (rb\<lparr>readCursors := (readCursors rb)[nat (g_cid fr) := g_next fr]\<rparr>)
       (GetLoop (fr\<lparr>g_next := i64 (g_next fr + 1), g_i := g_i fr + 1, g_index := g_index fr + 1\<rparr>))"
  by (rule trans [OF get_run.simps]) simp

lemma get_run_Publish:
  "get_run rb (GetPublish fr m) =
     Some (Inr (rb\<lparr>readBarrier := m\<rparr>, take (nat (g_index fr)) (g_results fr)))"
  by (rule trans [OF get_run.simps]) (simp add: get_run_Done)

lemma get_run_Min:
  "get_run rb (GetMin fr m j) =
     (if j < length (readCursors rb) then
        get_run rb (GetMin fr (if readCursors rb ! j < m then readCursors rb ! j else m) (Suc j))
      else Some (Inr (rb\<lparr>readBarrier := m\<rparr>, take (nat (g_index fr)) (g_results fr))))"
  by (rule trans [OF get_run.simps]) (simp add: get_run_Publish)

lemma get_run_Min_closed:
  "get_run rb (GetMin fr m j) =
     Some (Inr (rb\<lparr>readBarrier := min_cursor m (drop j (readCursors rb))\<rparr>,
                take (nat (g_index fr)) (g_results fr)))"
proof (induction "length (readCursors rb) - j" arbitrary: m j)
  case 0
  then show ?case by (subst get_run_Min) simp
next
  case (Suc n)
  then have j: "j < length (readCursors rb)" by simp
  then have "drop j (readCursors rb) = readCursors rb ! j # drop (Suc j) (readCursors rb)"
    by (rule Cons_nth_drop_Suc [symmetric])
  then show ?case using Suc j by (subst get_run_Min) simp
qed

lemma get_run_MinLoad:
  "get_run rb (GetMinLoad fr) = min_out rb fr"
  by (rule trans [OF get_run.simps]) (simp add: get_run_Min_closed min_out_def get_finish_def)

lemma loop_out_unfold:
  "loop_out rb fr =
     (if g_i fr < g_bs fr \<and> g_next fr \<le> writeCursor rb then
        (if i64 (g_next fr - readBarrier rb) < rb_size rb then flag_out rb fr else min_out rb fr)
      else min_out rb fr)"
  unfolding loop_out_def
  by (subst get_loop.simps)
     (simp add: flag_out_def copy_out_def store_out_def loop_out_def min_out_def get_finish_def
       split: sum.split option.split)

text \<open>Whatever a solo run of \<open>Get\<close> returns from a program point is what \<open>get_spec\<close>
  says, by fixpoint induction on \<open>get_run\<close>; conversely, whatever \<open>get_loop\<close> returns the
  solo run returns, by fixpoint induction on \<open>get_loop\<close>.\<close>

lemma get_run_spec:
  assumes "get_run rb pc = Some r"
  shows "get_spec rb pc = Some r"
  apply (rule get_run.raw_induct [where P = "\<lambda>rb pc r. get_spec rb pc = Some r", OF _ assms])
  subgoal premises prems for f rb pc r
  proof (cases pc)
    case (GetStart bs cid)
    then show ?thesis using prems(2)
      by (auto simp: get_def loop_out_def get_finish_def Let_def split: sum.splits option.splits
          dest!: prems(1))
  next
    case (GetLoop fr)
    then show ?thesis using prems(2) by (auto simp: loop_out_unfold split: if_splits dest!: prems(1))
  next
    case (GetBarrier fr)
    then show ?thesis using prems(2) by (auto split: if_splits dest!: prems(1))
  next
    case (GetFlag fr)
    then show ?thesis using prems(2) by (auto simp: flag_out_def split: sum.splits if_splits dest!: prems(1))
  next
    case (GetCopy fr)
    then show ?thesis using prems(2) by (auto simp: copy_out_def split: sum.splits dest!: prems(1))
  next
    case (GetStore fr)
    then show ?thesis using prems(2) by (auto simp: store_out_def dest!: prems(1))
  next
    case (GetMinLoad fr)
    then show ?thesis using prems(2) by (auto simp: min_out_def get_finish_def dest!: prems(1))
  next
    case (GetMin fr m j)
    show ?thesis
    proof (cases "j < length (readCursors rb)")
      case True
      then have "drop j (readCursors rb) = readCursors rb ! j # drop (Suc j) (readCursors rb)"
        by (rule Cons_nth_drop_Suc [symmetric])
      then show ?thesis using prems(2) GetMin True by (auto dest!: prems(1))
    next
      case False
      then show ?thesis using prems(2) GetMin by (auto dest!: prems(1))
    qed
  next
    case (GetPublish fr m)
    then show ?thesis using prems(2) by (auto dest!: prems(1))
  next
    case (GetDone res)
    then show ?thesis using prems(2) by (auto dest!: prems(1))
  qed
  done

lemma get_run_loop_unfold:
  "get_run rb (GetLoop fr) =
     (if g_i fr < g_bs fr \<and> g_next fr \<le> writeCursor rb \<and>
         i64 (g_next fr - readBarrier rb) < rb_size rb then
        (case go_mod (g_next fr) (rb_size rb) of
           Inl e \<Rightarrow> Some (Inl e)
         | Inr k \<Rightarrow>
             (case go_nth (available rb) k of
                Inl e \<Rightarrow> Some (Inl e)
              | Inr a \<Rightarrow>
                  (if a = 1 then
                     (case go_nth (buffer rb) k of
                        Inl e \<Rightarrow> Some (Inl e)
                      | Inr v \<Rightarrow>
                          (case go_update (g_results fr) (g_index fr) v of
                             Inl e \<Rightarrow> Some (Inl e)
                           | Inr res \<Rightarrow>
                               get_run (rb\<lparr>readCursors := (readCursors rb)[nat (g_cid fr) := g_next fr]\<rparr>)
                                 (GetLoop (fr\<lparr>g_results := res, g_next := i64 (g_next fr + 1),
                                               g_i := g_i fr + 1, g_index := g_index fr + 1\<rparr>))))
                   else get_run rb (GetLoop fr))))
      else min_out rb fr)"
  by (subst get_run_Loop)
     (simp add: get_run_Barrier get_run_Flag get_run_Copy get_run_Store get_run_MinLoad
       split: sum.split)

lemma get_loop_run:
  assumes "get_loop rb cid bs nr i idx res = Some r"
  shows "get_run rb (GetLoop \<lparr>g_cid = cid, g_bs = bs, g_next = nr, g_i = i, g_index = idx,
                              g_results = res\<rparr>) = get_finish cid r"
  apply (rule get_loop.raw_induct [where P = "\<lambda>rb cid bs nr i idx res r.
      get_run rb (GetLoop \<lparr>g_cid = cid, g_bs = bs, g_next = nr, g_i = i, g_index = idx,
                           g_results = res\<rparr>) = get_finish cid r", OF _ assms])
  subgoal premises prems for f rb cid bs nr i idx res r
    using prems(2)
    by (subst get_run_loop_unfold)
       (auto simp: min_out_def get_finish_def split: if_splits sum.splits dest!: prems(1))
  done

text \<open>
  The two models of \<open>Get\<close> agree: its atomic steps, run with no other goroutine in between, compute exactly the
  atomic \<open>get\<close>: the same record and batch, the same panic, or, where \<open>get\<close> spins
  forever (\<open>None\<close>), a run that never reaches the return.
\<close>

theorem get_run_eq: "get_run rb (GetStart bs cid) = get rb bs cid"
proof (cases "get rb bs cid")
  case None
  show ?thesis
  proof (rule ccontr)
    assume "get_run rb (GetStart bs cid) \<noteq> get rb bs cid"
    then obtain r where "get_run rb (GetStart bs cid) = Some r" using None by auto
    then have "get_spec rb (GetStart bs cid) = Some r" by (rule get_run_spec)
    with None show False by simp
  qed
next
  case (Some r)
  then show ?thesis
    by (auto simp: get_def get_run_Start get_finish_def Let_def dest!: get_loop_run
        split: sum.splits option.splits)
qed

end
