(* ===== verification/Interleaving.thy ===== *)
theory Interleaving
  imports Steps
begin

text \<open>
  The goroutines of \<open>src/lmax.go\<close> run concurrently on one \<open>RingBuffer\<close>. This theory
  models them as an interleaving of the atomic steps of theory \<open>Steps\<close>: a system state
  \<open>sys\<close> holds the shared ring, one program counter per goroutine, the stop channel and a
  crash flag, and \<open>sys_step\<close> is the \<^theory_text>\<open>inductive\<close> step relation, one rule per kind
  of step, any goroutine may move next. Memory is sequentially consistent: each load or
  store of the code is one step (Go's race detector would flag the plain accesses to
  \<open>buffer\<close> and \<open>readCursors\<close>, which this model treats as atomic words).
  \<^item> A producer goroutine (\<open>Producer\<close>, lines 84--87, called in a loop by \<open>main\<close> and
    the benchmarks) has a list of batches still to \<open>Put\<close> and, inside \<open>Put\<close>, a
    \<open>put_pc\<close>.
  \<^item> A consumer goroutine \<open>i\<close> runs \<open>Consumer(rb, i, batchSize, stopCh)\<close> (lines
    89--106): \<open>make\<close> its result slice, then at each \<open>select\<close> either stop, if the
    stop channel is closed, or call \<open>Get(batchSize, i)\<close> and print the non-nil values.
    \<open>c_got\<close> is the sequence of everything its calls returned (the printed lines are its
    non-nil elements).
  \<^item> \<open>close(stopCh)\<close> happens once every producer has finished, as in \<open>main\<close> and the
    benchmarks.
  \<^item> The consumer goroutines of the tests run other code (\<open>cmode\<close>): in \<open>UntilEmpty\<close>
    mode the loop of \<open>TestConcurrency\<close> (\<open>src/lmax_test.go\<close>, lines 64--72), where a
    call of \<open>Get\<close> that returns an empty batch ends the goroutine; in \<open>OneGet\<close> mode the
    goroutines of \<open>TestBasicFunctionality\<close> (lines 22--37), which call \<open>Get\<close> once and
    return (\<open>after_get\<close>). The tests have no stop channel, so nothing closes it.
  \<^item> A panic of any goroutine ends the program (\<open>crashed\<close>); no step follows it.
  Two ghost fields serve the proofs and are never read by a step: \<open>stream\<close>, the values of
  the claimed sequences in claim order (extended by the \<open>AddInt64\<close> step), and
  \<open>tags\<close>, the sequence last stored into each slot (set by the buffer store).
  \<open>act\<close> executes one goroutine's next step, deterministically, and \<open>run_sched\<close> a
  whole schedule; every such run is a run of \<open>sys_step\<close> (\<open>run_sched_steps\<close>), which is
  how concrete interleavings are exhibited. \<open>main_sys\<close> is the state \<open>main\<close> starts the
  goroutines in. The timing of \<open>time.Sleep\<close> is not modelled: a sleep is a step that
  changes nothing, so every interleaving the sleeps allow is a run of the model.
\<close>

text \<open>Program points of \<open>Consumer\<close>: before \<open>make\<close>, at the \<open>select\<close>, inside
  \<open>Get\<close>, returned.\<close>

datatype 'v cons_pc =
    CStart
  | CSelect
  | CGet "'v get_pc"
  | CStopped

text \<open>The code the consumer goroutines run: \<open>Consumer\<close>, the loop of \<open>TestConcurrency\<close>,
  or the single \<open>Get\<close> of \<open>TestBasicFunctionality\<close>.\<close>

datatype cons_mode = RunConsumer | UntilEmpty | OneGet

record 'v cons_th =
  c_pc :: "'v cons_pc"
  c_bs :: int
  c_got :: "'v iface list"

record 'v prod_th =
  p_pc :: "'v put_pc option"
  p_todo :: "'v iface list list"

record 'v sys =
  ring :: "'v ring_buffer"
  prods :: "'v prod_th list"
  conss :: "'v cons_th list"
  closed :: bool
  cmode :: cons_mode
  crashed :: "go_error option"
  stream :: "'v iface list"
  tags :: "int list"

definition put_ghost :: "int \<Rightarrow> 'v put_pc \<Rightarrow> 'v sys \<Rightarrow> 'v sys" where
  "put_ghost n pc s =
     (case pc of
        PutAdd ds \<Rightarrow> s\<lparr>stream := stream s @ ds\<rparr>
      | PutStore nw (d # ds) \<Rightarrow> s\<lparr>tags := (tags s)[nat (nw mod n) := nw]\<rparr>
      | _ \<Rightarrow> s)"

definition prod_set :: "'v sys \<Rightarrow> nat \<Rightarrow> 'v ring_buffer \<Rightarrow> 'v prod_th \<Rightarrow> 'v sys" where
  "prod_set s i rb p = s\<lparr>ring := rb, prods := (prods s)[i := p]\<rparr>"

definition cons_set :: "'v sys \<Rightarrow> nat \<Rightarrow> 'v ring_buffer \<Rightarrow> 'v cons_th \<Rightarrow> 'v sys" where
  "cons_set s i rb c = s\<lparr>ring := rb, conss := (conss s)[i := c]\<rparr>"

definition after_get :: "'v sys \<Rightarrow> 'v iface list \<Rightarrow> 'v cons_pc" where
  "after_get s res =
     (case cmode s of
        RunConsumer \<Rightarrow> CSelect
      | UntilEmpty \<Rightarrow> (if res = [] then CStopped else CSelect)
      | OneGet \<Rightarrow> CStopped)"

definition producers_done :: "'v sys \<Rightarrow> bool" where
  "producers_done s \<longleftrightarrow> list_all (\<lambda>p. p_pc p = None \<and> p_todo p = []) (prods s)"

inductive sys_step :: "'v sys \<Rightarrow> 'v sys \<Rightarrow> bool" where
  put_call:
    "crashed s = None \<Longrightarrow> i < length (prods s) \<Longrightarrow> prods s ! i = \<lparr>p_pc = None, p_todo = ds # rest\<rparr> \<Longrightarrow>
     sys_step s (prod_set s i (ring s) \<lparr>p_pc = Some (PutAdd ds), p_todo = rest\<rparr>)"
| put_move:
    "crashed s = None \<Longrightarrow> i < length (prods s) \<Longrightarrow> p_pc (prods s ! i) = Some pc \<Longrightarrow> pc \<noteq> PutDone \<Longrightarrow>
     put_step (ring s) pc = Inr (rb', pc') \<Longrightarrow>
     sys_step s (put_ghost (rb_size (ring s)) pc (prod_set s i rb' ((prods s ! i)\<lparr>p_pc := Some pc'\<rparr>)))"
| put_panic:
    "crashed s = None \<Longrightarrow> i < length (prods s) \<Longrightarrow> p_pc (prods s ! i) = Some pc \<Longrightarrow>
     put_step (ring s) pc = Inl e \<Longrightarrow> sys_step s (s\<lparr>crashed := Some e\<rparr>)"
| put_return:
    "crashed s = None \<Longrightarrow> i < length (prods s) \<Longrightarrow> p_pc (prods s ! i) = Some PutDone \<Longrightarrow>
     sys_step s (prod_set s i (ring s) ((prods s ! i)\<lparr>p_pc := None\<rparr>))"
| close_stop:
    "crashed s = None \<Longrightarrow> cmode s = RunConsumer \<Longrightarrow> \<not> closed s \<Longrightarrow> producers_done s \<Longrightarrow>
     sys_step s (s\<lparr>closed := True\<rparr>)"
| cons_start:
    "crashed s = None \<Longrightarrow> i < length (conss s) \<Longrightarrow> c_pc (conss s ! i) = CStart \<Longrightarrow>
     0 \<le> c_bs (conss s ! i) \<Longrightarrow>
     sys_step s (cons_set s i (ring s) ((conss s ! i)\<lparr>c_pc := CSelect\<rparr>))"
| cons_start_panic:
    "crashed s = None \<Longrightarrow> i < length (conss s) \<Longrightarrow> c_pc (conss s ! i) = CStart \<Longrightarrow>
     c_bs (conss s ! i) < 0 \<Longrightarrow> sys_step s (s\<lparr>crashed := Some MakeSliceLenOutOfRange\<rparr>)"
| cons_stop:
    "crashed s = None \<Longrightarrow> i < length (conss s) \<Longrightarrow> c_pc (conss s ! i) = CSelect \<Longrightarrow> closed s \<Longrightarrow>
     sys_step s (cons_set s i (ring s) ((conss s ! i)\<lparr>c_pc := CStopped\<rparr>))"
| cons_call:
    "crashed s = None \<Longrightarrow> i < length (conss s) \<Longrightarrow> c_pc (conss s ! i) = CSelect \<Longrightarrow> \<not> closed s \<Longrightarrow>
     sys_step s (cons_set s i (ring s) ((conss s ! i)\<lparr>c_pc := CGet (GetStart (c_bs (conss s ! i)) (int i))\<rparr>))"
| cons_move:
    "crashed s = None \<Longrightarrow> i < length (conss s) \<Longrightarrow> c_pc (conss s ! i) = CGet pc \<Longrightarrow>
     \<forall>res. pc \<noteq> GetDone res \<Longrightarrow> get_step (ring s) pc = Inr (rb', pc') \<Longrightarrow>
     sys_step s (cons_set s i rb' ((conss s ! i)\<lparr>c_pc := CGet pc'\<rparr>))"
| cons_panic:
    "crashed s = None \<Longrightarrow> i < length (conss s) \<Longrightarrow> c_pc (conss s ! i) = CGet pc \<Longrightarrow>
     get_step (ring s) pc = Inl e \<Longrightarrow> sys_step s (s\<lparr>crashed := Some e\<rparr>)"
| cons_return:
    "crashed s = None \<Longrightarrow> i < length (conss s) \<Longrightarrow> c_pc (conss s ! i) = CGet (GetDone res) \<Longrightarrow>
     sys_step s (cons_set s i (ring s)
                   ((conss s ! i)\<lparr>c_pc := after_get s res, c_got := c_got (conss s ! i) @ res\<rparr>))"

datatype thread = Prod nat | Cons nat | Closer

fun act :: "'v sys \<Rightarrow> thread \<Rightarrow> 'v sys option" where
  "act s (Prod i) =
     (if crashed s \<noteq> None \<or> length (prods s) \<le> i then None
      else (case p_pc (prods s ! i) of
              None \<Rightarrow>
                (case p_todo (prods s ! i) of
                   [] \<Rightarrow> None
                 | ds # rest \<Rightarrow>
                     Some (prod_set s i (ring s) \<lparr>p_pc = Some (PutAdd ds), p_todo = rest\<rparr>))
            | Some PutDone \<Rightarrow> Some (prod_set s i (ring s) ((prods s ! i)\<lparr>p_pc := None\<rparr>))
            | Some pc \<Rightarrow>
                (case put_step (ring s) pc of
                   Inl e \<Rightarrow> Some (s\<lparr>crashed := Some e\<rparr>)
                 | Inr (rb', pc') \<Rightarrow>
                     Some (put_ghost (rb_size (ring s)) pc
                       (prod_set s i rb' ((prods s ! i)\<lparr>p_pc := Some pc'\<rparr>))))))"
| "act s (Cons i) =
     (if crashed s \<noteq> None \<or> length (conss s) \<le> i then None
      else (case c_pc (conss s ! i) of
              CStart \<Rightarrow>
                (if 0 \<le> c_bs (conss s ! i)
                 then Some (cons_set s i (ring s) ((conss s ! i)\<lparr>c_pc := CSelect\<rparr>))
                 else Some (s\<lparr>crashed := Some MakeSliceLenOutOfRange\<rparr>))
            | CSelect \<Rightarrow>
                (if closed s
                 then Some (cons_set s i (ring s) ((conss s ! i)\<lparr>c_pc := CStopped\<rparr>))
                 else Some (cons_set s i (ring s)
                              ((conss s ! i)\<lparr>c_pc := CGet (GetStart (c_bs (conss s ! i)) (int i))\<rparr>)))
            | CGet (GetDone res) \<Rightarrow>
                Some (cons_set s i (ring s)
                        ((conss s ! i)\<lparr>c_pc := after_get s res, c_got := c_got (conss s ! i) @ res\<rparr>))
            | CGet pc \<Rightarrow>
                (case get_step (ring s) pc of
                   Inl e \<Rightarrow> Some (s\<lparr>crashed := Some e\<rparr>)
                 | Inr (rb', pc') \<Rightarrow>
                     Some (cons_set s i rb' ((conss s ! i)\<lparr>c_pc := CGet pc'\<rparr>)))
            | CStopped \<Rightarrow> None))"
| "act s Closer =
     (if crashed s = None \<and> cmode s = RunConsumer \<and> \<not> closed s \<and> producers_done s then Some (s\<lparr>closed := True\<rparr>) else None)"

fun run_sched :: "'v sys \<Rightarrow> thread list \<Rightarrow> 'v sys option" where
  "run_sched s [] = Some s"
| "run_sched s (t # ts) = (case act s t of None \<Rightarrow> None | Some s' \<Rightarrow> run_sched s' ts)"

definition init_sys :: "'v ring_buffer \<Rightarrow> 'v iface list list list \<Rightarrow> int list \<Rightarrow> 'v sys" where
  "init_sys rb work bss =
     \<lparr>ring = rb, prods = map (\<lambda>w. \<lparr>p_pc = None, p_todo = w\<rparr>) work,
      conss = map (\<lambda>bs. \<lparr>c_pc = CStart, c_bs = bs, c_got = []\<rparr>) bss,
      closed = False, cmode = RunConsumer, crashed = None, stream = [], tags = replicate (length (buffer rb)) (-1)\<rparr>"

text \<open>\<open>main\<close>: \<open>NewRingBuffer(10, 3)\<close>, three consumers with batches of 2, and the main
  goroutine itself as the one producer of \<open>[i, i+1, i+2, i+3, i+4]\<close> for \<open>i = 0, 5, 10, 15\<close>.\<close>

definition main_work :: "int iface list list" where
  "main_work = map (\<lambda>i. map Some [i, i + 1, i + 2, i + 3, i + 4]) [0, 5, 10, 15]"

definition main_sys :: "int sys option" where
  "main_sys =
     (case new_ring_buffer 10 3 of
        Inl e \<Rightarrow> None
      | Inr rb \<Rightarrow> Some (init_sys rb [main_work] [2, 2, 2]))"

text \<open>A small system for exhibiting interleavings: a two-slot ring, one producer of the batches
  \<open>[1, 2]\<close> and \<open>[3]\<close>, one consumer reading one value per \<open>Get\<close>.\<close>

definition small_sys :: "nat sys" where
  "small_sys =
     init_sys \<lparr>rb_size = 2, buffer = [None, None], writeCursor = 0, readCursors = [-1],
               available = [0, 0], writeBarrier = 0, readBarrier = 0\<rparr>
       [[[Some 1, Some 2], [Some 3]]] [1]"

definition get_once :: "thread list" where
  "get_once = replicate 13 (Cons 0)"

definition stale_sched :: "thread list" where
  "stale_sched = [Cons 0] @ replicate 8 (Prod 0) @ get_once @ get_once @ replicate 2 (Prod 0) @ get_once"

abbreviation main_ring :: "int ring_buffer" where
  "main_ring \<equiv> \<lparr>rb_size = 10, buffer = replicate 10 None, writeCursor = 0, readCursors = [-1, -1, -1],
                 available = replicate 10 0, writeBarrier = 0, readBarrier = 0\<rparr>"

text \<open>A prefix of a run of \<open>main\<close>: the consumers start, the first batch is put, and consumer 0
  gets two values.\<close>

definition main_sched :: "thread list" where
  "main_sched = [Cons 0, Cons 1, Cons 2] @ replicate 14 (Prod 0) @ replicate 20 (Cons 0)"

text \<open>Every step \<open>act\<close> takes is a step of the relation.\<close>

lemma act_step: "act s t = Some s' \<Longrightarrow> sys_step s s'"
proof (induction s t rule: act.induct)
  case (1 s i)
  then show ?case
    by (auto simp: not_le split: if_splits option.splits list.splits put_pc.splits sum.splits
        intro: sys_step.intros)
next
  case (2 s i)
  then show ?case
    by (auto simp: not_le split: if_splits cons_pc.splits get_pc.splits sum.splits
        intro: sys_step.intros)
next
  case (3 s)
  then show ?case by (auto split: if_splits intro: sys_step.intros)
qed

lemma run_sched_steps: "run_sched s ts = Some s' \<Longrightarrow> sys_step\<^sup>*\<^sup>* s s'"
proof (induction ts arbitrary: s)
  case Nil
  then show ?case by simp
next
  case (Cons t ts)
  then obtain s1 where "act s t = Some s1" and "run_sched s1 ts = Some s'"
    by (auto split: option.splits)
  then show ?case using Cons.IH act_step by (blast intro: converse_rtranclp_into_rtranclp)
qed

end
