(* ===== verification/Concurrent.thy ===== *)
theory Concurrent
  imports Interleaving
begin

text \<open>
  The invariant of the interleaving model of theory \<open>Interleaving\<close>, proved for every state
  reachable from a ring built by \<open>NewRingBuffer\<close> with a positive size, consumers with
  non-negative batch sizes and producers that claim fewer than \<open>2^62\<close> sequences in all
  (\<open>work_total\<close>). \<open>sys_inv\<close> is the conjunction of: the shapes of the arrays
  (\<open>ring_ok\<close>); the write cursor counts the claimed stream, stays within the bound together
  with the claims still to come, and bounds every read cursor and the read barrier
  (\<open>count_ok\<close>); each slot's flag is 0 or 1, a flagged slot has been written, and a
  written slot holds the value of the sequence last stored into it (\<open>slots_ok\<close>); each
  producer inside \<open>Put\<close> writes the values it claimed (\<open>prods_ok\<close>); each consumer's
  locals agree with its cursor, and its cursor is one less than the number of values it
  has received (\<open>cons_ok\<close>). Every kind of step keeps it (one lemma per program point,
  \<open>put_step_ok\<close> and \<open>get_step_ok\<close>), so by rule induction it holds in every reachable
  state (\<open>reach_init_inv\<close>).
\<close>

definition prod_pending :: "'v prod_th \<Rightarrow> nat" where
  "prod_pending p =
     (case p_pc p of Some (PutAdd ds) \<Rightarrow> length ds | _ \<Rightarrow> 0) + sum_list (map length (p_todo p))"

definition pending :: "'v sys \<Rightarrow> nat" where
  "pending s = sum_list (map prod_pending (prods s))"

definition slot_ok :: "'v sys \<Rightarrow> nat \<Rightarrow> bool" where
  "slot_ok s j \<longleftrightarrow>
     (available (ring s) ! j = 0 \<or> available (ring s) ! j = 1) \<and>
     (available (ring s) ! j = 1 \<longrightarrow> 0 \<le> tags s ! j) \<and>
     (tags s ! j = -1 \<or>
      (0 \<le> tags s ! j \<and> tags s ! j < writeCursor (ring s) \<and>
       tags s ! j mod rb_size (ring s) = int j \<and> buffer (ring s) ! j = stream s ! nat (tags s ! j)))"

definition ring_ok :: "'v sys \<Rightarrow> bool" where
  "ring_ok s \<longleftrightarrow>
     0 < rb_size (ring s) \<and> length (buffer (ring s)) = nat (rb_size (ring s)) \<and>
     length (available (ring s)) = nat (rb_size (ring s)) \<and> length (tags s) = nat (rb_size (ring s)) \<and>
     length (readCursors (ring s)) = length (conss s)"

definition count_ok :: "'v sys \<Rightarrow> bool" where
  "count_ok s \<longleftrightarrow>
     int (length (stream s)) = writeCursor (ring s) \<and>
     writeCursor (ring s) + int (pending s) \<le> seq_limit \<and>
     -1 \<le> readBarrier (ring s) \<and> readBarrier (ring s) \<le> writeCursor (ring s) \<and>
     (\<forall>k<length (readCursors (ring s)).
        -1 \<le> readCursors (ring s) ! k \<and> readCursors (ring s) ! k \<le> writeCursor (ring s))"

definition slots_ok :: "'v sys \<Rightarrow> bool" where
  "slots_ok s \<longleftrightarrow> (\<forall>j<nat (rb_size (ring s)). slot_ok s j)"

definition claim_ok :: "'v sys \<Rightarrow> int \<Rightarrow> 'v iface list \<Rightarrow> bool" where
  "claim_ok s nw ds \<longleftrightarrow>
     0 \<le> nw \<and> nw + int (length ds) \<le> writeCursor (ring s) \<and>
     ds = take (length ds) (drop (nat nw) (stream s))"

fun put_pc_ok :: "'v sys \<Rightarrow> 'v put_pc \<Rightarrow> bool" where
  "put_pc_ok s (PutStore nw ds) \<longleftrightarrow> claim_ok s nw ds"
| "put_pc_ok s (PutFlag nw ds) \<longleftrightarrow>
     claim_ok s nw ds \<and> ds \<noteq> [] \<and> 0 \<le> tags s ! nat (nw mod rb_size (ring s))"
| "put_pc_ok s _ \<longleftrightarrow> True"

definition prods_ok :: "'v sys \<Rightarrow> bool" where
  "prods_ok s \<longleftrightarrow>
     (\<forall>k<length (prods s). case p_pc (prods s ! k) of None \<Rightarrow> True | Some pc \<Rightarrow> put_pc_ok s pc)"

definition idle_count :: "'v sys \<Rightarrow> nat \<Rightarrow> bool" where
  "idle_count s i \<longleftrightarrow> readCursors (ring s) ! i + 1 = int (length (c_got (conss s ! i)))"

definition frame_ok :: "'v sys \<Rightarrow> nat \<Rightarrow> 'v get_frame \<Rightarrow> bool" where
  "frame_ok s i fr \<longleftrightarrow>
     g_cid fr = int i \<and> g_bs fr = c_bs (conss s ! i) \<and>
     g_next fr = readCursors (ring s) ! i + 1 \<and> g_index fr = g_i fr \<and>
     0 \<le> g_i fr \<and> g_i fr \<le> g_bs fr \<and> length (g_results fr) = nat (g_bs fr) \<and>
     readCursors (ring s) ! i + 1 = int (length (c_got (conss s ! i))) + g_i fr"

definition in_loop :: "'v sys \<Rightarrow> nat \<Rightarrow> 'v get_frame \<Rightarrow> bool" where
  "in_loop s i fr \<longleftrightarrow> frame_ok s i fr \<and> g_i fr < g_bs fr \<and> g_next fr \<le> writeCursor (ring s)"

definition flagged :: "'v sys \<Rightarrow> int \<Rightarrow> bool" where
  "flagged s nr \<longleftrightarrow> available (ring s) ! nat (nr mod rb_size (ring s)) = 1"

fun get_pc_ok :: "'v sys \<Rightarrow> nat \<Rightarrow> 'v get_pc \<Rightarrow> bool" where
  "get_pc_ok s i (GetStart bs cid) \<longleftrightarrow> bs = c_bs (conss s ! i) \<and> cid = int i \<and> idle_count s i"
| "get_pc_ok s i (GetLoop fr) \<longleftrightarrow> frame_ok s i fr"
| "get_pc_ok s i (GetBarrier fr) \<longleftrightarrow> in_loop s i fr"
| "get_pc_ok s i (GetFlag fr) \<longleftrightarrow> in_loop s i fr"
| "get_pc_ok s i (GetCopy fr) \<longleftrightarrow> in_loop s i fr \<and> flagged s (g_next fr)"
| "get_pc_ok s i (GetStore fr) \<longleftrightarrow> in_loop s i fr \<and> flagged s (g_next fr)"
| "get_pc_ok s i (GetMinLoad fr) \<longleftrightarrow> frame_ok s i fr"
| "get_pc_ok s i (GetMin fr m j) \<longleftrightarrow> frame_ok s i fr \<and> -1 \<le> m \<and> m \<le> writeCursor (ring s)"
| "get_pc_ok s i (GetPublish fr m) \<longleftrightarrow> frame_ok s i fr \<and> -1 \<le> m \<and> m \<le> writeCursor (ring s)"
| "get_pc_ok s i (GetDone res) \<longleftrightarrow>
     readCursors (ring s) ! i + 1 = int (length (c_got (conss s ! i)) + length res)"

definition cons_ok :: "'v sys \<Rightarrow> nat \<Rightarrow> bool" where
  "cons_ok s i \<longleftrightarrow>
     0 \<le> c_bs (conss s ! i) \<and>
     (case c_pc (conss s ! i) of CGet pc \<Rightarrow> get_pc_ok s i pc | _ \<Rightarrow> idle_count s i)"

definition work_total :: "'v iface list list list \<Rightarrow> nat" where
  "work_total work = sum_list (map (\<lambda>w. sum_list (map length w)) work)"

definition sys_inv :: "'v sys \<Rightarrow> bool" where
  "sys_inv s \<longleftrightarrow>
     crashed s = None \<and> ring_ok s \<and> count_ok s \<and> slots_ok s \<and> prods_ok s \<and>
     (\<forall>i<length (conss s). cons_ok s i)"


lemma get_pc_ok_mono:
  assumes "get_pc_ok s j pc"
    and "c_bs (conss s' ! j) = c_bs (conss s ! j) \<and> c_got (conss s' ! j) = c_got (conss s ! j)"
    and "rb_size (ring s') = rb_size (ring s)"
    and "readCursors (ring s') ! j = readCursors (ring s) ! j"
    and "writeCursor (ring s) \<le> writeCursor (ring s')"
    and "\<forall>k. available (ring s) ! k = 1 \<longrightarrow> available (ring s') ! k = 1"
  shows "get_pc_ok s' j pc"
  using assms
  by (cases pc) (auto simp: idle_count_def frame_ok_def in_loop_def flagged_def)

lemma cons_ok_mono:
  assumes "cons_ok s j" and "conss s' ! j = conss s ! j"
    and "rb_size (ring s') = rb_size (ring s)"
    and "readCursors (ring s') ! j = readCursors (ring s) ! j"
    and "writeCursor (ring s) \<le> writeCursor (ring s')"
    and "\<forall>k. available (ring s) ! k = 1 \<longrightarrow> available (ring s') ! k = 1"
  shows "cons_ok s' j"
  using assms get_pc_ok_mono [OF _ _ assms(3-6)]
  by (auto simp: cons_ok_def idle_count_def split: cons_pc.splits)

lemma claim_ok_mono:
  assumes "claim_ok s nw ds" and "writeCursor (ring s) \<le> writeCursor (ring s')"
    and "stream s' = stream s @ xs" and "writeCursor (ring s) = int (length (stream s))"
  shows "claim_ok s' nw ds"
proof -
  have "0 \<le> nw" and "nw + int (length ds) \<le> int (length (stream s))"
    using assms(1,4) by (simp_all add: claim_ok_def)
  then have "nat nw + length ds \<le> length (stream s)" by linarith
  then have "take (length ds) (drop (nat nw) (stream s @ xs)) = take (length ds) (drop (nat nw) (stream s))"
    by simp
  then show ?thesis using assms by (simp add: claim_ok_def)
qed

lemma put_pc_ok_mono:
  assumes "put_pc_ok s pc" and "rb_size (ring s') = rb_size (ring s)"
    and "writeCursor (ring s) \<le> writeCursor (ring s')"
    and "stream s' = stream s @ xs" and "writeCursor (ring s) = int (length (stream s))"
    and "\<forall>k<nat (rb_size (ring s)). 0 \<le> tags s ! k \<longrightarrow> 0 \<le> tags s' ! k"
    and "0 < rb_size (ring s)"
  shows "put_pc_ok s' pc"
proof (cases "(s, pc)" rule: put_pc_ok.cases)
  case (2 t nw ds)
  have "nat (nw mod rb_size (ring s)) < nat (rb_size (ring s))"
    using assms(7) by (simp add: nat_less_eq_zless)
  then show ?thesis using assms 2 by (auto intro: claim_ok_mono)
qed (use assms in \<open>auto intro: claim_ok_mono\<close>)


lemma cons_ok_cong:
  "ring s' = ring s \<Longrightarrow> conss s' ! j = conss s ! j \<Longrightarrow> cons_ok s j \<Longrightarrow> cons_ok s' j"
  by (rule cons_ok_mono) auto

lemma put_pc_ok_cong:
  "put_pc_ok s pc \<Longrightarrow> ring s' = ring s \<Longrightarrow> stream s' = stream s \<Longrightarrow> tags s' = tags s \<Longrightarrow>
   writeCursor (ring s) = int (length (stream s)) \<Longrightarrow> 0 < rb_size (ring s) \<Longrightarrow> put_pc_ok s' pc"
  by (rule put_pc_ok_mono [where xs = "[]"]) auto

lemma prod_pending_set:
  assumes "i < length (prods s)" and "prod_pending p = prod_pending (prods s ! i)"
  shows "pending (prod_set s i rb p) = pending s"
proof -
  have "pending (prod_set s i rb p) + prod_pending (prods s ! i) = pending s + prod_pending p"
    using assms(1) by (simp add: pending_def prod_set_def sum_list_map_update)
  then show ?thesis using assms(2) by simp
qed

lemma sys_inv_prod_local:
  assumes inv: "sys_inv s" and i: "i < length (prods s)"
    and pend: "prod_pending p = prod_pending (prods s ! i)"
    and pc: "case p_pc p of None \<Rightarrow> True | Some pc \<Rightarrow> put_pc_ok s pc"
  shows "sys_inv (prod_set s i (ring s) p)"
proof -
  let ?s' = "prod_set s i (ring s) p"
  have same: "ring ?s' = ring s" "conss ?s' = conss s" "stream ?s' = stream s" "tags ?s' = tags s"
    "crashed ?s' = crashed s" "length (prods ?s') = length (prods s)"
    by (simp_all add: prod_set_def)
  have wc: "writeCursor (ring s) = int (length (stream s))"
    using inv by (simp add: sys_inv_def count_ok_def)
  have n: "0 < rb_size (ring s)" using inv by (simp add: sys_inv_def ring_ok_def)
  have "count_ok ?s'" using inv prod_pending_set [OF i pend] by (simp add: sys_inv_def count_ok_def same)
  moreover have "prods_ok ?s'"
    unfolding prods_ok_def
  proof (intro allI impI)
    fix k assume k: "k < length (prods ?s')"
    show "case p_pc (prods ?s' ! k) of None \<Rightarrow> True | Some pc \<Rightarrow> put_pc_ok ?s' pc"
    proof (cases "k = i")
      case True
      then show ?thesis using pc i same wc n by (auto simp: prod_set_def intro: put_pc_ok_cong split: option.splits)
    next
      case False
      then have "prods ?s' ! k = prods s ! k" by (simp add: prod_set_def)
      moreover have "case p_pc (prods s ! k) of None \<Rightarrow> True | Some pc \<Rightarrow> put_pc_ok s pc"
        using inv k same by (simp add: sys_inv_def prods_ok_def)
      ultimately show ?thesis using same wc n by (auto intro: put_pc_ok_cong split: option.splits)
    qed
  qed
  moreover have "\<forall>j<length (conss ?s'). cons_ok ?s' j"
    using inv same cons_ok_cong [of ?s' s] by (simp add: sys_inv_def)
  moreover have "ring_ok ?s'" "slots_ok ?s'" "crashed ?s' = None"
    using inv same by (simp_all add: sys_inv_def ring_ok_def slots_ok_def slot_ok_def)
  ultimately show ?thesis by (simp add: sys_inv_def)
qed

lemma sys_inv_cons_local:
  assumes inv: "sys_inv s" and i: "i < length (conss s)" and ok: "cons_ok (cons_set s i (ring s) c) i"
  shows "sys_inv (cons_set s i (ring s) c)"
proof -
  let ?s' = "cons_set s i (ring s) c"
  have same: "ring ?s' = ring s" "prods ?s' = prods s" "stream ?s' = stream s" "tags ?s' = tags s"
    "crashed ?s' = crashed s" "length (conss ?s') = length (conss s)"
    by (simp_all add: cons_set_def)
  have wc: "writeCursor (ring s) = int (length (stream s))"
    using inv by (simp add: sys_inv_def count_ok_def)
  have n: "0 < rb_size (ring s)" using inv by (simp add: sys_inv_def ring_ok_def)
  have "pending ?s' = pending s" by (simp add: pending_def cons_set_def)
  then have "count_ok ?s'" using inv by (simp add: sys_inv_def count_ok_def same)
  moreover have "prods_ok ?s'"
    using inv same wc n put_pc_ok_cong [of s _ ?s'] by (auto simp: sys_inv_def prods_ok_def split: option.splits)
  moreover have "\<forall>j<length (conss ?s'). cons_ok ?s' j"
  proof (intro allI impI)
    fix j assume j: "j < length (conss ?s')"
    show "cons_ok ?s' j"
    proof (cases "j = i")
      case True
      then show ?thesis using ok by simp
    next
      case False
      then have "conss ?s' ! j = conss s ! j" by (simp add: cons_set_def)
      then show ?thesis using inv j same cons_ok_cong [of ?s' s j] by (simp add: sys_inv_def)
    qed
  qed
  moreover have "ring_ok ?s'" "slots_ok ?s'" "crashed ?s' = None"
    using inv same by (simp_all add: sys_inv_def ring_ok_def slots_ok_def slot_ok_def)
  ultimately show ?thesis by (simp add: sys_inv_def)
qed

lemma inv_init:
  assumes "new_ring_buffer sz (int (length bss)) = Inr rb" and "0 < sz"
    and "\<forall>bs\<in>set bss. 0 \<le> bs" and "int (work_total work) \<le> seq_limit"
  shows "sys_inv (init_sys rb work bss)"
proof -
  have "new_ring_buffer sz (int (length bss)) =
          Inr \<lparr>rb_size = sz, buffer = replicate (nat sz) None, writeCursor = 0,
               readCursors = replicate (length bss) (-1),
               available = replicate (nat sz) 0, writeBarrier = 0, readBarrier = 0\<rparr>"
    using assms(2) new_ring_buffer_eq [of sz "int (length bss)"] by simp
  then have rb: "rb = \<lparr>rb_size = sz, buffer = replicate (nat sz) None, writeCursor = 0,
                readCursors = replicate (length bss) (-1),
                available = replicate (nat sz) 0, writeBarrier = 0, readBarrier = 0\<rparr>"
    using assms(1) by (metis sum.inject(2))
  have p: "pending (init_sys rb work bss) = work_total work"
    by (simp add: pending_def init_sys_def prod_pending_def work_total_def comp_def)
  show ?thesis
    using assms(2-4) p
    by (auto simp: rb sys_inv_def ring_ok_def count_ok_def slots_ok_def prods_ok_def cons_ok_def
        idle_count_def slot_ok_def init_sys_def seq_limit_def)
qed

lemma inv_put_call:
  assumes "sys_inv s" and "i < length (prods s)" and "prods s ! i = \<lparr>p_pc = None, p_todo = ds # rest\<rparr>"
  shows "sys_inv (prod_set s i (ring s) \<lparr>p_pc = Some (PutAdd ds), p_todo = rest\<rparr>)"
  using assms by (intro sys_inv_prod_local) (simp_all add: prod_pending_def)

lemma inv_put_return:
  assumes "sys_inv s" and "i < length (prods s)" and "p_pc (prods s ! i) = Some PutDone"
  shows "sys_inv (prod_set s i (ring s) ((prods s ! i)\<lparr>p_pc := None\<rparr>))"
  using assms by (intro sys_inv_prod_local) (simp_all add: prod_pending_def)

lemma inv_close: "sys_inv s \<Longrightarrow> sys_inv (s\<lparr>closed := True\<rparr>)"
  using cons_ok_cong [of "s\<lparr>closed := True\<rparr>" s] put_pc_ok_cong [of s _ "s\<lparr>closed := True\<rparr>"]
  by (auto simp: sys_inv_def ring_ok_def count_ok_def slots_ok_def slot_ok_def prods_ok_def
      pending_def split: option.splits)

lemma inv_cmode: "sys_inv s \<Longrightarrow> sys_inv (s\<lparr>cmode := b\<rparr>)"
  using cons_ok_cong [of "s\<lparr>cmode := b\<rparr>" s] put_pc_ok_cong [of s _ "s\<lparr>cmode := b\<rparr>"]
  by (auto simp: sys_inv_def ring_ok_def count_ok_def slots_ok_def slot_ok_def prods_ok_def
      pending_def split: option.splits)

lemma inv_cons_idle:
  assumes "sys_inv s" and "i < length (conss s)" and "c_pc (conss s ! i) \<in> {CStart, CSelect}"
    and "c' \<in> {CSelect, CStopped, CGet (GetStart (c_bs (conss s ! i)) (int i))}"
  shows "sys_inv (cons_set s i (ring s) ((conss s ! i)\<lparr>c_pc := c'\<rparr>))"
proof (rule sys_inv_cons_local [OF assms(1,2)])
  have "cons_ok s i" using assms(1,2) by (simp add: sys_inv_def)
  then show "cons_ok (cons_set s i (ring s) ((conss s ! i)\<lparr>c_pc := c'\<rparr>)) i"
    using assms(2-4) by (auto simp: cons_ok_def idle_count_def cons_set_def)
qed

lemma inv_cons_return:
  assumes "sys_inv s" and "i < length (conss s)" and "c_pc (conss s ! i) = CGet (GetDone res)"
  shows "sys_inv (cons_set s i (ring s)
                   ((conss s ! i)\<lparr>c_pc := after_get s res, c_got := c_got (conss s ! i) @ res\<rparr>))"
proof (rule sys_inv_cons_local [OF assms(1,2)])
  have "cons_ok s i" using assms(1,2) by (simp add: sys_inv_def)
  then show "cons_ok (cons_set s i (ring s)
               ((conss s ! i)\<lparr>c_pc := after_get s res, c_got := c_got (conss s ! i) @ res\<rparr>)) i"
    using assms(2,3) by (simp add: cons_ok_def idle_count_def cons_set_def after_get_def split: cons_mode.split)
qed

lemma pending_ge:
  assumes "i < length (prods s)"
  shows "prod_pending (prods s ! i) \<le> pending s"
  using assms unfolding pending_def
  by (metis elem_le_sum_list length_map nth_map)

lemma put_step_add:
  assumes "0 \<le> writeCursor rb" and "writeCursor rb + int (length ds) \<le> seq_limit"
  shows "put_step rb (PutAdd ds) =
           Inr (rb\<lparr>writeCursor := writeCursor rb + int (length ds)\<rparr>, PutStore (writeCursor rb) ds)"
proof -
  have "i64 (writeCursor rb + int (length ds)) = writeCursor rb + int (length ds)"
    using assms by (intro i64_small) (simp_all add: seq_limit_def)
  moreover have "i64 (writeCursor rb) = writeCursor rb"
    using assms by (intro i64_small) (simp_all add: seq_limit_def)
  ultimately show ?thesis by (simp add: Let_def)
qed

lemma prods_okD:
  "prods_ok s \<Longrightarrow> k < length (prods s) \<Longrightarrow> p_pc (prods s ! k) = Some pc \<Longrightarrow> put_pc_ok s pc"
  unfolding prods_ok_def by (metis option.simps(5))

lemma prods_ok_frame:
  assumes "prods_ok s" and "prods s' = prods s"
    and "rb_size (ring s') = rb_size (ring s)" and "writeCursor (ring s) \<le> writeCursor (ring s')"
    and "stream s' = stream s @ xs" and "writeCursor (ring s) = int (length (stream s))"
    and "\<forall>k<nat (rb_size (ring s)). 0 \<le> tags s ! k \<longrightarrow> 0 \<le> tags s' ! k"
    and "0 < rb_size (ring s)"
  shows "prods_ok s'"
  unfolding prods_ok_def
proof (intro allI impI)
  fix k assume k: "k < length (prods s')"
  have "case p_pc (prods s ! k) of None \<Rightarrow> True | Some pc \<Rightarrow> put_pc_ok s pc"
    using assms(1,2) k by (simp add: prods_ok_def)
  then show "case p_pc (prods s' ! k) of None \<Rightarrow> True | Some pc \<Rightarrow> put_pc_ok s' pc"
    unfolding assms(2) using put_pc_ok_mono [OF _ assms(3-8)] by (simp split: option.splits)
qed

lemma prods_ok_step:
  assumes "prods_ok s" and "i < length (prods s)" and "prods s' = (prods s)[i := p']"
    and "case p_pc p' of None \<Rightarrow> True | Some pc \<Rightarrow> put_pc_ok s' pc"
    and "rb_size (ring s') = rb_size (ring s)" and "writeCursor (ring s) \<le> writeCursor (ring s')"
    and "stream s' = stream s @ xs" and "writeCursor (ring s) = int (length (stream s))"
    and "\<forall>k<nat (rb_size (ring s)). 0 \<le> tags s ! k \<longrightarrow> 0 \<le> tags s' ! k"
    and "0 < rb_size (ring s)"
  shows "prods_ok s'"
  unfolding prods_ok_def
proof (intro allI impI)
  fix k assume k: "k < length (prods s')"
  show "case p_pc (prods s' ! k) of None \<Rightarrow> True | Some pc \<Rightarrow> put_pc_ok s' pc"
  proof (cases "k = i")
    case True
    then show ?thesis using assms(2-4) by simp
  next
    case False
    then have eq: "prods s' ! k = prods s ! k" using assms(3) by simp
    have "case p_pc (prods s ! k) of None \<Rightarrow> True | Some pc \<Rightarrow> put_pc_ok s pc"
      using assms(1,3) k by (simp add: prods_ok_def)
    then show ?thesis
      unfolding eq using put_pc_ok_mono [OF _ assms(5-10)] by (simp split: option.splits)
  qed
qed

lemma conss_ok_step:
  assumes "\<forall>j<length (conss s). cons_ok s j" and "length (conss s') = length (conss s)"
    and "cons_ok s' i"
    and "\<forall>j. j \<noteq> i \<longrightarrow> conss s' ! j = conss s ! j"
    and "rb_size (ring s') = rb_size (ring s)"
    and "\<forall>j. j \<noteq> i \<longrightarrow> readCursors (ring s') ! j = readCursors (ring s) ! j"
    and "writeCursor (ring s) \<le> writeCursor (ring s')"
    and "\<forall>k. available (ring s) ! k = 1 \<longrightarrow> available (ring s') ! k = 1"
  shows "\<forall>j<length (conss s'). cons_ok s' j"
proof (intro allI impI)
  fix j assume j: "j < length (conss s')"
  show "cons_ok s' j"
  proof (cases "j = i")
    case True
    then show ?thesis using assms(3) by simp
  next
    case False
    then show ?thesis
      using assms j by (intro cons_ok_mono [of s j s']) simp_all
  qed
qed

lemma inv_put_add:
  assumes inv: "sys_inv s" and i: "i < length (prods s)" and pc: "p_pc (prods s ! i) = Some (PutAdd ds)"
  shows "sys_inv (put_ghost (rb_size (ring s)) (PutAdd ds)
            (prod_set s i ((ring s)\<lparr>writeCursor := writeCursor (ring s) + int (length ds)\<rparr>)
               ((prods s ! i)\<lparr>p_pc := Some (PutStore (writeCursor (ring s)) ds)\<rparr>)))"
    (is "sys_inv ?s'")
proof -
  let ?w = "writeCursor (ring s)" and ?n = "int (length ds)"
  let ?p' = "(prods s ! i)\<lparr>p_pc := Some (PutStore (writeCursor (ring s)) ds)\<rparr>"
  have cnt: "count_ok s" and rok: "ring_ok s" and sl: "slots_ok s" and po: "prods_ok s"
    and co: "\<forall>j<length (conss s). cons_ok s j" and cr: "crashed s = None"
    using inv by (simp_all add: sys_inv_def)
  have w: "int (length (stream s)) = ?w" using cnt by (simp add: count_ok_def)
  have s': "ring ?s' = (ring s)\<lparr>writeCursor := ?w + ?n\<rparr>" "stream ?s' = stream s @ ds"
    "tags ?s' = tags s" "conss ?s' = conss s" "crashed ?s' = crashed s" "prods ?s' = (prods s)[i := ?p']"
    by (simp_all add: put_ghost_def prod_set_def)
  have pp: "prod_pending (prods s ! i) = nat ?n + prod_pending ?p'"
    using pc by (simp add: prod_pending_def)
  have "pending ?s' + prod_pending (prods s ! i) = pending s + prod_pending ?p'"
    using i by (simp add: pending_def put_ghost_def prod_set_def sum_list_map_update)
  then have pend: "int (pending ?s') + ?n = int (pending s)" using pp by simp
  have "count_ok ?s'"
    using cnt pend s'(1,2) unfolding count_ok_def by force
  moreover have "ring_ok ?s'" using rok s' by (simp add: ring_ok_def)
  moreover have "slots_ok ?s'"
    using sl s' w by (auto simp: slots_ok_def slot_ok_def nth_append)
  moreover have "prods_ok ?s'"
  proof (rule prods_ok_step [OF po i s'(6), where xs = ds])
    have "0 \<le> ?w" using cnt by (simp add: count_ok_def)
    then show "case p_pc ?p' of None \<Rightarrow> True | Some pc \<Rightarrow> put_pc_ok ?s' pc"
      using s' w by (simp add: claim_ok_def)
    show "rb_size (ring ?s') = rb_size (ring s)" "?w \<le> writeCursor (ring ?s')"
      "stream ?s' = stream s @ ds" "?w = int (length (stream s))"
      "\<forall>k<nat (rb_size (ring s)). 0 \<le> tags s ! k \<longrightarrow> 0 \<le> tags ?s' ! k"
      "0 < rb_size (ring s)"
      using s'(1-3) w rok by (simp_all add: ring_ok_def)
  qed
  moreover have "\<forall>j<length (conss ?s'). cons_ok ?s' j"
  proof (intro allI impI)
    fix j assume "j < length (conss ?s')"
    then have "cons_ok s j" using co s' by simp
    then show "cons_ok ?s' j" by (rule cons_ok_mono) (simp_all add: s')
  qed
  ultimately show ?thesis using cr s' by (simp add: sys_inv_def)
qed

lemma claim_ok_Cons:
  assumes "claim_ok s nw (d # ds)" and "int (length (stream s)) = writeCursor (ring s)"
  shows "claim_ok s (nw + 1) ds" and "stream s ! nat nw = d" and "nw < writeCursor (ring s)"
proof -
  have nw: "0 \<le> nw" and le: "nw + 1 + int (length ds) \<le> writeCursor (ring s)"
    and tk: "d # ds = take (Suc (length ds)) (drop (nat nw) (stream s))"
    using assms(1) by (simp_all add: claim_ok_def)
  have lt: "nat nw < length (stream s)" using nw le assms(2) by linarith
  then have dr: "drop (nat nw) (stream s) = stream s ! nat nw # drop (Suc (nat nw)) (stream s)"
    by (rule Cons_nth_drop_Suc [symmetric])
  show "stream s ! nat nw = d" using tk dr by simp
  have "nat (nw + 1) = Suc (nat nw)" using nw by simp
  then show "claim_ok s (nw + 1) ds" using tk dr nw le by (simp add: claim_ok_def)
  show "nw < writeCursor (ring s)" using le by simp
qed

lemma put_step_store:
  assumes "0 \<le> nw" and "0 < rb_size rb" and "length (buffer rb) = nat (rb_size rb)"
  shows "put_step rb (PutStore nw (d # ds)) =
           Inr (rb\<lparr>buffer := (buffer rb)[nat (nw mod rb_size rb) := d]\<rparr>, PutFlag nw (d # ds))"
  using assms by (simp add: go_mod_nonneg go_update_in nat_less_iff)

lemma put_step_flag:
  assumes "0 \<le> nw" and "nw < seq_limit" and "0 < rb_size rb"
    and "length (available rb) = nat (rb_size rb)"
  shows "put_step rb (PutFlag nw (d # ds)) =
           Inr (rb\<lparr>available := (available rb)[nat (nw mod rb_size rb) := 1]\<rparr>, PutStore (nw + 1) ds)"
proof -
  have "i64 (nw + 1) = nw + 1" using assms(1,2) by (intro i64_small) (simp_all add: seq_limit_def)
  then show ?thesis using assms by (simp add: go_mod_nonneg go_update_in nat_less_iff)
qed

lemma inv_put_store:
  assumes inv: "sys_inv s" and i: "i < length (prods s)"
    and pc: "p_pc (prods s ! i) = Some (PutStore nw (d # ds))"
  shows "sys_inv (put_ghost (rb_size (ring s)) (PutStore nw (d # ds))
            (prod_set s i ((ring s)\<lparr>buffer := (buffer (ring s))[nat (nw mod rb_size (ring s)) := d]\<rparr>)
               ((prods s ! i)\<lparr>p_pc := Some (PutFlag nw (d # ds))\<rparr>)))"
    (is "sys_inv ?s'")
proof -
  let ?n = "rb_size (ring s)" let ?k = "nat (nw mod rb_size (ring s))"
  let ?p' = "(prods s ! i)\<lparr>p_pc := Some (PutFlag nw (d # ds))\<rparr>"
  have cnt: "count_ok s" and rok: "ring_ok s" and sl: "slots_ok s" and po: "prods_ok s"
    and co: "\<forall>j<length (conss s). cons_ok s j" and cr: "crashed s = None"
    using inv by (simp_all add: sys_inv_def)
  have w: "int (length (stream s)) = writeCursor (ring s)" using cnt by (simp add: count_ok_def)
  have cl: "claim_ok s nw (d # ds)" using prods_okD [OF po i pc] by simp
  note c = claim_ok_Cons [OF cl w]
  have nw: "0 \<le> nw" using cl by (simp add: claim_ok_def)
  have n: "0 < ?n" and lt: "length (tags s) = nat ?n" "length (buffer (ring s)) = nat ?n"
    using rok by (simp_all add: ring_ok_def)
  have k: "?k < nat ?n" using n by (simp add: nat_less_iff)
  have s': "ring ?s' = (ring s)\<lparr>buffer := (buffer (ring s))[?k := d]\<rparr>" "stream ?s' = stream s"
    "tags ?s' = (tags s)[?k := nw]" "conss ?s' = conss s" "crashed ?s' = crashed s"
    "prods ?s' = (prods s)[i := ?p']"
    by (simp_all add: put_ghost_def prod_set_def)
  have "pending ?s' = pending (prod_set s i ((ring s)\<lparr>buffer := (buffer (ring s))[?k := d]\<rparr>) ?p')"
    by (simp add: pending_def put_ghost_def)
  also have "\<dots> = pending s"
    using i pc by (intro prod_pending_set) (simp_all add: prod_pending_def)
  finally have "pending ?s' = pending s" .
  then have "count_ok ?s'" using cnt s' by (simp add: count_ok_def)
  moreover have "ring_ok ?s'" using rok s' by (simp add: ring_ok_def)
  moreover have "slots_ok ?s'"
    unfolding slots_ok_def
  proof (intro allI impI)
    fix j assume j: "j < nat (rb_size (ring ?s'))"
    show "slot_ok ?s' j"
    proof (cases "j = ?k")
      case True
      have "nw mod ?n = int ?k" using n by simp
      moreover have "slot_ok s j" using sl j s' by (simp add: slots_ok_def)
      ultimately show ?thesis using True c nw k lt s' by (simp add: slot_ok_def)
    next
      case False
      then show ?thesis using sl j s' by (simp add: slots_ok_def slot_ok_def)
    qed
  qed
  moreover have "prods_ok ?s'"
  proof (rule prods_ok_step [OF po i s'(6), where xs = "[]"])
    have "claim_ok ?s' nw (d # ds)"
      by (rule claim_ok_mono [OF cl, where xs = "[]"]) (simp_all add: s' w)
    then show "case p_pc ?p' of None \<Rightarrow> True | Some pc \<Rightarrow> put_pc_ok ?s' pc"
      using k lt nw s' by simp
    show "rb_size (ring ?s') = rb_size (ring s)" "writeCursor (ring s) \<le> writeCursor (ring ?s')"
      "stream ?s' = stream s @ []" "writeCursor (ring s) = int (length (stream s))"
      "\<forall>k<nat (rb_size (ring s)). 0 \<le> tags s ! k \<longrightarrow> 0 \<le> tags ?s' ! k"
      "0 < rb_size (ring s)"
      using s' w nw n lt by (simp_all add: nth_list_update)
  qed
  moreover have "\<forall>j<length (conss ?s'). cons_ok ?s' j"
  proof (intro allI impI)
    fix j assume "j < length (conss ?s')"
    then have "cons_ok s j" using co s' by simp
    then show "cons_ok ?s' j" by (rule cons_ok_mono) (simp_all add: s')
  qed
  ultimately show ?thesis using cr s' by (simp add: sys_inv_def)
qed

lemma inv_put_flag:
  assumes inv: "sys_inv s" and i: "i < length (prods s)"
    and pc: "p_pc (prods s ! i) = Some (PutFlag nw (d # ds))"
  shows "sys_inv (put_ghost (rb_size (ring s)) (PutFlag nw (d # ds))
            (prod_set s i ((ring s)\<lparr>available := (available (ring s))[nat (nw mod rb_size (ring s)) := 1]\<rparr>)
               ((prods s ! i)\<lparr>p_pc := Some (PutStore (nw + 1) ds)\<rparr>)))"
    (is "sys_inv ?s'")
proof -
  let ?n = "rb_size (ring s)" let ?k = "nat (nw mod rb_size (ring s))"
  let ?p' = "(prods s ! i)\<lparr>p_pc := Some (PutStore (nw + 1) ds)\<rparr>"
  have cnt: "count_ok s" and rok: "ring_ok s" and sl: "slots_ok s" and po: "prods_ok s"
    and co: "\<forall>j<length (conss s). cons_ok s j" and cr: "crashed s = None"
    using inv by (simp_all add: sys_inv_def)
  have w: "int (length (stream s)) = writeCursor (ring s)" using cnt by (simp add: count_ok_def)
  have fl: "put_pc_ok s (PutFlag nw (d # ds))" using prods_okD [OF po i pc] .
  then have cl: "claim_ok s nw (d # ds)" and tg: "0 \<le> tags s ! ?k" by simp_all
  note c = claim_ok_Cons [OF cl w]
  have n: "0 < ?n" and lt: "length (available (ring s)) = nat ?n"
    using rok by (simp_all add: ring_ok_def)
  have s': "ring ?s' = (ring s)\<lparr>available := (available (ring s))[?k := 1]\<rparr>" "stream ?s' = stream s"
    "tags ?s' = tags s" "conss ?s' = conss s" "crashed ?s' = crashed s"
    "prods ?s' = (prods s)[i := ?p']"
    by (simp_all add: put_ghost_def prod_set_def)
  have "pending ?s' = pending (prod_set s i ((ring s)\<lparr>available := (available (ring s))[?k := 1]\<rparr>) ?p')"
    by (simp add: pending_def put_ghost_def)
  also have "\<dots> = pending s"
    using i pc by (intro prod_pending_set) (simp_all add: prod_pending_def)
  finally have "pending ?s' = pending s" .
  then have "count_ok ?s'" using cnt s' by (simp add: count_ok_def)
  moreover have "ring_ok ?s'" using rok s' by (simp add: ring_ok_def)
  moreover have "slots_ok ?s'"
    unfolding slots_ok_def
  proof (intro allI impI)
    fix j assume j: "j < nat (rb_size (ring ?s'))"
    have "slot_ok s j" using sl j s' by (simp add: slots_ok_def)
    then show "slot_ok ?s' j"
      using s' tg lt j by (cases "j = ?k") (simp_all add: slot_ok_def)
  qed
  moreover have "prods_ok ?s'"
  proof (rule prods_ok_step [OF po i s'(6), where xs = "[]"])
    have "claim_ok ?s' (nw + 1) ds"
      by (rule claim_ok_mono [OF c(1), where xs = "[]"]) (simp_all add: s' w)
    then show "case p_pc ?p' of None \<Rightarrow> True | Some pc \<Rightarrow> put_pc_ok ?s' pc" by simp
    show "rb_size (ring ?s') = rb_size (ring s)" "writeCursor (ring s) \<le> writeCursor (ring ?s')"
      "stream ?s' = stream s @ []" "writeCursor (ring s) = int (length (stream s))"
      "\<forall>k<nat (rb_size (ring s)). 0 \<le> tags s ! k \<longrightarrow> 0 \<le> tags ?s' ! k"
      "0 < rb_size (ring s)"
      using s' w n by simp_all
  qed
  moreover have "\<forall>j<length (conss ?s'). cons_ok ?s' j"
  proof (intro allI impI)
    fix j assume "j < length (conss ?s')"
    then have "cons_ok s j" using co s' by simp
    then show "cons_ok ?s' j" by (rule cons_ok_mono) (simp_all add: s' nth_update_keep)
  qed
  ultimately show ?thesis using cr s' by (simp add: sys_inv_def)
qed

lemma put_step_ok:
  assumes inv: "sys_inv s" and i: "i < length (prods s)" and pc: "p_pc (prods s ! i) = Some pc"
    and pc': "pc \<noteq> PutDone"
  shows "\<exists>rb' pc'. put_step (ring s) pc = Inr (rb', pc') \<and>
           sys_inv (put_ghost (rb_size (ring s)) pc (prod_set s i rb' ((prods s ! i)\<lparr>p_pc := Some pc'\<rparr>)))"
proof -
  have cnt: "count_ok s" and rok: "ring_ok s" and po: "prods_ok s"
    using inv by (simp_all add: sys_inv_def)
  have ok: "put_pc_ok s pc" using prods_okD [OF po i pc] .
  have w0: "0 \<le> writeCursor (ring s)" and w: "int (length (stream s)) = writeCursor (ring s)"
    using cnt by (simp_all add: count_ok_def)
  show ?thesis
  proof (cases pc)
    case (PutAdd ds)
    have "int (length ds) \<le> int (pending s)"
      using pending_ge [OF i] pc PutAdd by (simp add: prod_pending_def)
    then have "writeCursor (ring s) + int (length ds) \<le> seq_limit" using cnt by (simp add: count_ok_def)
    then show ?thesis
      using PutAdd put_step_add [OF w0] inv_put_add [OF inv i] pc by simp
  next
    case (PutStore nw ds)
    show ?thesis
    proof (cases ds)
      case Nil
      have "sys_inv (prod_set s i (ring s) ((prods s ! i)\<lparr>p_pc := Some PutDone\<rparr>))"
        using inv i pc PutStore Nil by (intro sys_inv_prod_local) (simp_all add: prod_pending_def)
      then show ?thesis using PutStore Nil by (simp add: put_ghost_def)
    next
      case (Cons d ds')
      have "0 \<le> nw" using ok PutStore by (simp add: claim_ok_def)
      then show ?thesis
        using PutStore Cons put_step_store [of nw "ring s"] rok inv_put_store [OF inv i] pc
        by (simp add: ring_ok_def)
    qed
  next
    case (PutFlag nw ds)
    then obtain d ds' where ds: "ds = d # ds'" using ok by (cases ds) auto
    have cl: "claim_ok s nw (d # ds')" using ok PutFlag ds by simp
    have "0 \<le> nw" using cl by (simp add: claim_ok_def)
    moreover have "nw < seq_limit" using claim_ok_Cons (3) [OF cl w] cnt by (simp add: count_ok_def)
    ultimately show ?thesis
      using PutFlag ds put_step_flag [of nw "ring s"] rok inv_put_flag [OF inv i] pc
      by (simp add: ring_ok_def)
  next
    case PutDone
    then show ?thesis using pc' by simp
  qed
qed

lemma get_pc_ok_cpc:
  assumes "get_pc_ok s i pc" and "i < length (conss s)"
  shows "get_pc_ok (cons_set s i (ring s) ((conss s ! i)\<lparr>c_pc := x\<rparr>)) i pc"
  by (rule get_pc_ok_mono [OF assms(1)]) (use assms(2) in \<open>simp_all add: cons_set_def\<close>)

lemma sys_inv_ring_cons:
  assumes inv: "sys_inv s" and i: "i < length (conss s)"
    and sz: "rb_size rb' = rb_size (ring s)" "buffer rb' = buffer (ring s)"
      "available rb' = available (ring s)" "writeCursor rb' = writeCursor (ring s)"
    and rc: "length (readCursors rb') = length (readCursors (ring s))"
      "\<forall>j. j \<noteq> i \<longrightarrow> readCursors rb' ! j = readCursors (ring s) ! j"
      "-1 \<le> readCursors rb' ! i" "readCursors rb' ! i \<le> writeCursor (ring s)"
    and rb: "-1 \<le> readBarrier rb'" "readBarrier rb' \<le> writeCursor (ring s)"
    and ok: "cons_ok (cons_set s i rb' c) i"
  shows "sys_inv (cons_set s i rb' c)"
proof -
  let ?s' = "cons_set s i rb' c"
  have cnt: "count_ok s" and rok: "ring_ok s" and sl: "slots_ok s" and po: "prods_ok s"
    and co: "\<forall>j<length (conss s). cons_ok s j" and cr: "crashed s = None"
    using inv by (simp_all add: sys_inv_def)
  have s': "ring ?s' = rb'" "prods ?s' = prods s" "stream ?s' = stream s" "tags ?s' = tags s"
    "crashed ?s' = crashed s" "length (conss ?s') = length (conss s)"
    "\<forall>j. j \<noteq> i \<longrightarrow> conss ?s' ! j = conss s ! j"
    by (simp_all add: cons_set_def)
  have w: "int (length (stream s)) = writeCursor (ring s)" using cnt by (simp add: count_ok_def)
  have n: "0 < rb_size (ring s)" using rok by (simp add: ring_ok_def)
  have "pending ?s' = pending s" by (simp add: pending_def cons_set_def)
  moreover have "\<forall>k<length (readCursors rb'). -1 \<le> readCursors rb' ! k \<and> readCursors rb' ! k \<le> writeCursor rb'"
  proof (intro allI impI)
    fix k assume k: "k < length (readCursors rb')"
    show "-1 \<le> readCursors rb' ! k \<and> readCursors rb' ! k \<le> writeCursor rb'"
      using cnt k rc sz by (cases "k = i") (simp_all add: count_ok_def)
  qed
  ultimately have "count_ok ?s'" using cnt s' sz rb by (simp add: count_ok_def)
  moreover have "ring_ok ?s'" using rok s' sz rc by (simp add: ring_ok_def)
  moreover have "slots_ok ?s'" using sl s' sz by (simp add: slots_ok_def slot_ok_def)
  moreover have "prods_ok ?s'"
  proof (rule prods_ok_frame [OF po s'(2), where xs = "[]"])
    show "rb_size (ring ?s') = rb_size (ring s)" "writeCursor (ring s) \<le> writeCursor (ring ?s')"
      "stream ?s' = stream s @ []" "writeCursor (ring s) = int (length (stream s))"
      "\<forall>k<nat (rb_size (ring s)). 0 \<le> tags s ! k \<longrightarrow> 0 \<le> tags ?s' ! k"
      "0 < rb_size (ring s)"
      using s' sz w n by simp_all
  qed
  moreover have "\<forall>j<length (conss ?s'). cons_ok ?s' j"
  proof (rule conss_ok_step [OF co s'(6) ok])
    show "\<forall>j. j \<noteq> i \<longrightarrow> conss ?s' ! j = conss s ! j" using s'(7) .
    show "rb_size (ring ?s') = rb_size (ring s)" "writeCursor (ring s) \<le> writeCursor (ring ?s')"
      "\<forall>j. j \<noteq> i \<longrightarrow> readCursors (ring ?s') ! j = readCursors (ring s) ! j"
      "\<forall>k. available (ring s) ! k = 1 \<longrightarrow> available (ring ?s') ! k = 1"
      using s'(1) sz rc(2) by simp_all
  qed
  ultimately show ?thesis using cr s' by (simp add: sys_inv_def)
qed

lemma inv_cons_same:
  assumes inv: "sys_inv s" and i: "i < length (conss s)" and ok: "get_pc_ok s i pc'"
  shows "sys_inv (cons_set s i (ring s) ((conss s ! i)\<lparr>c_pc := CGet pc'\<rparr>))"
proof (rule sys_inv_cons_local [OF inv i])
  have "0 \<le> c_bs (conss s ! i)" using inv i by (simp add: sys_inv_def cons_ok_def)
  then show "cons_ok (cons_set s i (ring s) ((conss s ! i)\<lparr>c_pc := CGet pc'\<rparr>)) i"
    using get_pc_ok_cpc [OF ok i] i by (simp add: cons_ok_def cons_set_def)
qed

lemma cursor_bounds:
  assumes "sys_inv s" and "i < length (conss s)"
  shows "-1 \<le> readCursors (ring s) ! i" and "readCursors (ring s) ! i \<le> writeCursor (ring s)"
    and "writeCursor (ring s) \<le> seq_limit" and "i < length (readCursors (ring s))"
  using assms by (auto simp: sys_inv_def count_ok_def ring_ok_def)

lemma get_step_ok:
  assumes inv: "sys_inv s" and i: "i < length (conss s)" and pc: "c_pc (conss s ! i) = CGet pc"
    and nd: "\<forall>res. pc \<noteq> GetDone res"
  shows "\<exists>rb' pc'. get_step (ring s) pc = Inr (rb', pc') \<and>
           sys_inv (cons_set s i rb' ((conss s ! i)\<lparr>c_pc := CGet pc'\<rparr>))"
proof -
  let ?N = "rb_size (ring s)" and ?rc = "readCursors (ring s) ! i" and ?W = "writeCursor (ring s)"
  have "cons_ok s i" using inv i by (simp add: sys_inv_def)
  then have ok: "get_pc_ok s i pc" and bs: "0 \<le> c_bs (conss s ! i)"
    using pc by (simp_all add: cons_ok_def)
  note cb = cursor_bounds [OF inv i]
  have n: "0 < ?N" and lb: "length (buffer (ring s)) = nat ?N"
    and la: "length (available (ring s)) = nat ?N"
    using inv by (simp_all add: sys_inv_def ring_ok_def)
  have cnt: "count_ok s" using inv by (simp add: sys_inv_def)
  show ?thesis
  proof (cases pc)
    case (GetStart bs' cid)
    then have bs': "bs' = c_bs (conss s ! i)" "cid = int i" "idle_count s i" using ok by simp_all
    let ?fr = "\<lparr>g_cid = int i, g_bs = bs', g_next = ?rc + 1, g_i = 0, g_index = 0,
                g_results = replicate (nat bs') None\<rparr>"
    have "i64 (?rc + 1) = ?rc + 1" using cb by (intro i64_small) (simp_all add: seq_limit_def)
    then have st: "get_step (ring s) pc = Inr (ring s, GetLoop ?fr)"
      using GetStart bs' bs cb(4) by (simp add: go_simps)
    have "get_pc_ok s i (GetLoop ?fr)" using bs' bs by (simp add: frame_ok_def idle_count_def)
    then show ?thesis using st inv_cons_same [OF inv i] by blast
  next
    case (GetLoop fr)
    then have fo: "frame_ok s i fr" using ok by simp
    show ?thesis
    proof (cases "g_i fr < g_bs fr \<and> g_next fr \<le> ?W")
      case True
      then have "get_pc_ok s i (GetBarrier fr)" using fo by (simp add: in_loop_def)
      then show ?thesis using GetLoop True inv_cons_same [OF inv i] by auto
    next
      case False
      then show ?thesis using GetLoop fo inv_cons_same [OF inv i, of "GetMinLoad fr"] by auto
    qed
  next
    case (GetBarrier fr)
    then have "in_loop s i fr" using ok by simp
    then show ?thesis
      using GetBarrier inv_cons_same [OF inv i, of "GetFlag fr"] inv_cons_same [OF inv i, of "GetMinLoad fr"]
      by (auto simp: in_loop_def)
  next
    case (GetFlag fr)
    then have il: "in_loop s i fr" using ok by simp
    then have nx: "0 \<le> g_next fr" using cb by (simp add: in_loop_def frame_ok_def)
    have m: "go_mod (g_next fr) ?N = Inr (g_next fr mod ?N)" using nx n by (rule go_mod_nonneg)
    have k: "0 \<le> g_next fr mod ?N" "g_next fr mod ?N < int (length (available (ring s)))"
      using n la by simp_all
    show ?thesis
    proof (cases "available (ring s) ! nat (g_next fr mod ?N) = 1")
      case True
      then have "get_pc_ok s i (GetCopy fr)" using il by (simp add: flagged_def)
      then show ?thesis using GetFlag m k True inv_cons_same [OF inv i] by (simp add: go_simps)
    next
      case False
      have "get_pc_ok s i (GetLoop fr)" using il by (simp add: in_loop_def)
      then show ?thesis using GetFlag m k False inv_cons_same [OF inv i] by (simp add: go_simps)
    qed
  next
    case (GetCopy fr)
    then have il: "in_loop s i fr" and fl: "flagged s (g_next fr)" using ok by simp_all
    then have nx: "0 \<le> g_next fr" using cb by (simp add: in_loop_def frame_ok_def)
    have m: "go_mod (g_next fr) ?N = Inr (g_next fr mod ?N)" using nx n by (rule go_mod_nonneg)
    have k: "0 \<le> g_next fr mod ?N" "g_next fr mod ?N < int (length (buffer (ring s)))"
      using n lb by simp_all
    let ?v = "buffer (ring s) ! nat (g_next fr mod ?N)"
    have ix: "0 \<le> g_index fr" "g_index fr < int (length (g_results fr))"
      using il by (auto simp: in_loop_def frame_ok_def)
    let ?fr' = "fr\<lparr>g_results := (g_results fr)[nat (g_index fr) := ?v]\<rparr>"
    have st: "get_step (ring s) pc = Inr (ring s, GetStore ?fr')"
      using GetCopy m k ix by (simp add: go_simps)
    have "get_pc_ok s i (GetStore ?fr')" using il fl by (simp add: in_loop_def frame_ok_def)
    then show ?thesis using st inv_cons_same [OF inv i] by blast
  next
    case (GetStore fr)
    then have il: "in_loop s i fr" using ok by simp
    then have fr: "g_cid fr = int i" "g_next fr = ?rc + 1" "g_index fr = g_i fr" "0 \<le> g_i fr"
      "g_i fr < g_bs fr" "g_bs fr = c_bs (conss s ! i)" "length (g_results fr) = nat (g_bs fr)"
      "?rc + 1 = int (length (c_got (conss s ! i))) + g_i fr" "g_next fr \<le> ?W"
      by (simp_all add: in_loop_def frame_ok_def)
    have "i64 (g_next fr + 1) = g_next fr + 1" using cb fr by (intro i64_small) (simp_all add: seq_limit_def)
    then have st: "get_step (ring s) pc =
        Inr ((ring s)\<lparr>readCursors := (readCursors (ring s))[i := g_next fr]\<rparr>,
             GetLoop (fr\<lparr>g_next := g_next fr + 1, g_i := g_i fr + 1, g_index := g_index fr + 1\<rparr>))"
      using GetStore fr(1) by simp
    let ?rb' = "(ring s)\<lparr>readCursors := (readCursors (ring s))[i := g_next fr]\<rparr>"
    let ?c' = "(conss s ! i)\<lparr>c_pc := CGet (GetLoop (fr\<lparr>g_next := g_next fr + 1, g_i := g_i fr + 1,
                                                          g_index := g_index fr + 1\<rparr>))\<rparr>"
    have "cons_ok (cons_set s i ?rb' ?c') i"
      using i cb(4) fr bs by (simp add: cons_ok_def cons_set_def frame_ok_def)
    then have "sys_inv (cons_set s i ?rb' ?c')"
      using cb fr cnt by (intro sys_inv_ring_cons [OF inv i]) (simp_all add: count_ok_def)
    then show ?thesis using st by blast
  next
    case (GetMinLoad fr)
    then have "get_pc_ok s i (GetMin fr ?rc 0)" using ok cb by (simp add: frame_ok_def)
    moreover have "g_cid fr = int i" using ok GetMinLoad by (simp add: frame_ok_def)
    ultimately show ?thesis using GetMinLoad inv_cons_same [OF inv i] by auto
  next
    case (GetMin fr m j)
    then have fo: "frame_ok s i fr" "-1 \<le> m" "m \<le> ?W" using ok by simp_all
    show ?thesis
    proof (cases "j < length (readCursors (ring s))")
      case True
      have "-1 \<le> readCursors (ring s) ! j \<and> readCursors (ring s) ! j \<le> ?W"
        using cnt True by (simp add: count_ok_def)
      then have "get_pc_ok s i (GetMin fr (if readCursors (ring s) ! j < m then readCursors (ring s) ! j else m) (Suc j))"
        using fo by simp
      then show ?thesis using GetMin True inv_cons_same [OF inv i] by auto
    next
      case False
      then show ?thesis using GetMin fo inv_cons_same [OF inv i, of "GetPublish fr m"] by auto
    qed
  next
    case (GetPublish fr m)
    then have fo: "frame_ok s i fr" "-1 \<le> m" "m \<le> ?W" using ok by simp_all
    let ?res = "take (nat (g_index fr)) (g_results fr)"
    let ?c' = "(conss s ! i)\<lparr>c_pc := CGet (GetDone ?res)\<rparr>"
    have "g_i fr \<le> g_bs fr" "g_index fr = g_i fr" "length (g_results fr) = nat (g_bs fr)"
      using fo(1) by (simp_all add: frame_ok_def)
    then have "length ?res = nat (g_i fr)" by simp
    then have "cons_ok (cons_set s i ((ring s)\<lparr>readBarrier := m\<rparr>) ?c') i"
      using i fo(1) bs by (simp add: cons_ok_def cons_set_def frame_ok_def)
    then have "sys_inv (cons_set s i ((ring s)\<lparr>readBarrier := m\<rparr>) ?c')"
      using cb fo by (intro sys_inv_ring_cons [OF inv i]) simp_all
    then show ?thesis using GetPublish by simp
  next
    case (GetDone res)
    then show ?thesis using nd by simp
  qed
qed

lemma sys_step_inv:
  assumes "sys_step s s'" and "sys_inv s"
  shows "sys_inv s'"
  using assms
proof (induction rule: sys_step.induct)
  case (put_call s i ds rest)
  then show ?case by (intro inv_put_call) auto
next
  case (put_move s i pc rb' pc')
  then show ?case using put_step_ok [of s i pc] by auto
next
  case (put_panic s i pc e)
  then show ?case using put_step_ok [of s i pc] by (cases "pc = PutDone") auto
next
  case (put_return s i)
  then show ?case by (intro inv_put_return)
next
  case (close_stop s)
  then show ?case using inv_close by blast
next
  case (cons_start s i)
  then show ?case by (intro inv_cons_idle) auto
next
  case (cons_start_panic s i)
  then have "cons_ok s i" by (simp add: sys_inv_def)
  then show ?case using cons_start_panic.hyps(4) by (simp add: cons_ok_def)
next
  case (cons_stop s i)
  then show ?case by (intro inv_cons_idle) auto
next
  case (cons_call s i)
  then show ?case by (intro inv_cons_idle) auto
next
  case (cons_move s i pc rb' pc')
  then show ?case using get_step_ok [of s i pc] by auto
next
  case (cons_panic s i pc e)
  show ?case
  proof (cases "\<exists>res. pc = GetDone res")
    case True
    then show ?thesis using cons_panic.hyps(4) by auto
  next
    case False
    then show ?thesis using cons_panic get_step_ok [of s i pc] by auto
  qed
next
  case (cons_return s i res)
  then show ?case by (intro inv_cons_return)
qed

lemma reach_inv:
  assumes "sys_step\<^sup>*\<^sup>* s0 s" and "sys_inv s0"
  shows "sys_inv s"
  using assms by (induction rule: rtranclp_induct) (auto intro: sys_step_inv)

lemma reach_init_inv:
  assumes "new_ring_buffer sz (int (length bss)) = Inr rb" and "0 < sz"
    and "\<forall>bs\<in>set bss. 0 \<le> bs" and "int (work_total work) \<le> seq_limit"
    and "sys_step\<^sup>*\<^sup>* (init_sys rb work bss) s"
  shows "sys_inv s"
  using reach_inv [OF assms(5) inv_init [OF assms(1-4)]] .

lemma put_step_available:
  "put_step rb pc = Inr (rb', pc') \<Longrightarrow> available rb ! j = 1 \<Longrightarrow> available rb' ! j = 1"
  by (induction rb pc rule: put_step.induct)
     (auto simp: Let_def go_update_def nth_update_keep split: sum.splits if_splits)

lemma get_step_available:
  "get_step rb pc = Inr (rb', pc') \<Longrightarrow> available rb' = available rb"
  by (induction rb pc rule: get_step.induct) (auto split: sum.splits if_splits)

lemma main_hyps:
  "new_ring_buffer 10 (int (length [2, 2, 2 :: int])) = Inr main_ring \<and> (0::int) < 10 \<and>
   (\<forall>bs\<in>set [2, 2, 2 :: int]. 0 \<le> bs) \<and> int (work_total [main_work]) \<le> seq_limit"
  by code_simp

lemma main_reach:
  "sys_step\<^sup>*\<^sup>* (init_sys main_ring [main_work] [2, 2, 2])
     (the (run_sched (init_sys main_ring [main_work] [2, 2, 2]) main_sched))"
proof -
  have "run_sched (init_sys main_ring [main_work] [2, 2, 2]) main_sched \<noteq> None" by code_simp
  then show ?thesis using run_sched_steps by auto
qed

text \<open>
  C18: no goroutine ever panics: in every state reachable from a well-formed start, the
  program has not crashed (no slice index, \<open>%\<close> or \<open>make\<close> fails).
\<close>

theorem concurrent_no_panic:
  assumes "new_ring_buffer sz (int (length bss)) = Inr rb" and "0 < sz"
    and "\<forall>bs\<in>set bss. 0 \<le> bs" and "int (work_total work) \<le> seq_limit"
    and "sys_step\<^sup>*\<^sup>* (init_sys rb work bss) s"
  shows "crashed s = None"
  using reach_init_inv [OF assms] by (simp add: sys_inv_def)

text \<open>
  C20: under every interleaving, a consumer between two calls of \<open>Get\<close> has a cursor exactly
  one less than the number of values its calls returned: the cursor advances by one per
  value received, never skipping or repeating a sequence number.
\<close>

theorem concurrent_cursor_counts:
  assumes "new_ring_buffer sz (int (length bss)) = Inr rb" and "0 < sz"
    and "\<forall>bs\<in>set bss. 0 \<le> bs" and "int (work_total work) \<le> seq_limit"
    and "sys_step\<^sup>*\<^sup>* (init_sys rb work bss) s"
  shows "\<forall>i<length (conss s). c_pc (conss s ! i) \<in> {CStart, CSelect, CStopped} \<longrightarrow>
           readCursors (ring s) ! i + 1 = int (length (c_got (conss s ! i)))"
  using reach_init_inv [OF assms] by (auto simp: sys_inv_def cons_ok_def idle_count_def)

text \<open>
  A concurrent stale read, on one run of \<open>small_sys\<close>. A producer claims sequence 2 with \<open>AddInt64\<close> and has not yet
  written it when the consumer, whose read barrier admits sequence 2, finds the flag of slot 0
  still set from sequence 0 and returns the old value 1 for sequence 2: the consumer receives
  \<open>[1, 2, 1]\<close> of the stream \<open>[1, 2, 3]\<close>. The read is within the write cursor, so the
  off-by-one of the guard plays no part; the flag without a sequence tag does.
\<close>

theorem concurrent_stale_read:
  "\<exists>s. sys_step\<^sup>*\<^sup>* small_sys s \<and> stream s = [Some 1, Some 2, Some 3] \<and>
       c_got (conss s ! 0) = [Some 1, Some 2, Some 1]"
proof -
  have "map_option (\<lambda>s. (stream s, c_got (conss s ! 0))) (run_sched small_sys stale_sched) =
        Some ([Some 1, Some 2, Some 3], [Some 1, Some 2, Some 1])"
    by code_simp
  then obtain s where "run_sched small_sys stale_sched = Some s"
    and "stream s = [Some 1, Some 2, Some 3]" and "c_got (conss s ! 0) = [Some 1, Some 2, Some 1]"
    by (cases "run_sched small_sys stale_sched") auto
  then show ?thesis using run_sched_steps by blast
qed

text \<open>
  C21: no step ever clears an availability flag. The specification requires a flag to be
  reset when its slot is reclaimed for a new sequence; the code never does, which is what
  makes the stale read of \<open>concurrent_stale_read\<close> possible.
\<close>

theorem flags_never_reset:
  assumes "sys_step s s'" and "available (ring s) ! j = 1"
  shows "available (ring s') ! j = 1"
  using assms
  by (induction rule: sys_step.induct)
     (auto simp: put_ghost_def prod_set_def cons_set_def dest: put_step_available get_step_available
       split: put_pc.splits list.splits)

text \<open>
  C23: the \<open>int32\<close> availability flags are booleans in every reachable state: each is 0 or 1.
\<close>

theorem concurrent_flags_bool:
  assumes "new_ring_buffer sz (int (length bss)) = Inr rb" and "0 < sz"
    and "\<forall>bs\<in>set bss. 0 \<le> bs" and "int (work_total work) \<le> seq_limit"
    and "sys_step\<^sup>*\<^sup>* (init_sys rb work bss) s"
  shows "set (available (ring s)) \<subseteq> {0, 1}"
proof
  fix a assume "a \<in> set (available (ring s))"
  then obtain j where j: "j < length (available (ring s))" and a: "a = available (ring s) ! j"
    by (auto simp: in_set_conv_nth)
  have "sys_inv s" using reach_init_inv [OF assms] .
  then have "slot_ok s j" using j by (simp add: sys_inv_def slots_ok_def ring_ok_def)
  then show "a \<in> {0, 1}" using a by (auto simp: slot_ok_def)
qed

text \<open>The theorems at a run of \<open>main\<close>: the consumers start, the first batch is put and
  consumer 0 gets two values; then consumer 1 moves, and the flag of slot 0, set by the
  first \<open>Put\<close>, stays set.\<close>

theorem concurrent_no_panic_witness:
  "sys_step\<^sup>*\<^sup>* (init_sys main_ring [main_work] [2, 2, 2])
     (the (run_sched (init_sys main_ring [main_work] [2, 2, 2]) main_sched)) \<and>
   crashed (the (run_sched (init_sys main_ring [main_work] [2, 2, 2]) main_sched)) = None"
  using main_hyps main_reach concurrent_no_panic [of 10 "[2, 2, 2]" main_ring "[main_work]"] by blast

theorem concurrent_cursor_counts_witness:
  "sys_step\<^sup>*\<^sup>* (init_sys main_ring [main_work] [2, 2, 2])
     (the (run_sched (init_sys main_ring [main_work] [2, 2, 2]) main_sched)) \<and>
   c_pc (conss (the (run_sched (init_sys main_ring [main_work] [2, 2, 2]) main_sched)) ! 0) = CSelect \<and>
   readCursors (ring (the (run_sched (init_sys main_ring [main_work] [2, 2, 2]) main_sched))) ! 0 + 1 =
   int (length (c_got (conss (the (run_sched (init_sys main_ring [main_work] [2, 2, 2]) main_sched)) ! 0)))"
proof -
  let ?s = "the (run_sched (init_sys main_ring [main_work] [2, 2, 2]) main_sched)"
  have "0 < length (conss ?s) \<and> c_pc (conss ?s ! 0) = CSelect" by code_simp
  then show ?thesis
    using main_hyps main_reach concurrent_cursor_counts [of 10 "[2, 2, 2]" main_ring "[main_work]" ?s]
    by auto
qed

theorem flags_never_reset_witness:
  "sys_step (the (run_sched (init_sys main_ring [main_work] [2, 2, 2]) main_sched))
     (the (act (the (run_sched (init_sys main_ring [main_work] [2, 2, 2]) main_sched)) (Cons 1))) \<and>
   available (ring (the (run_sched (init_sys main_ring [main_work] [2, 2, 2]) main_sched))) ! 0 = 1 \<and>
   available (ring (the (act (the (run_sched (init_sys main_ring [main_work] [2, 2, 2]) main_sched))
                               (Cons 1)))) ! 0 = 1"
proof -
  let ?s = "the (run_sched (init_sys main_ring [main_work] [2, 2, 2]) main_sched)"
  have "act ?s (Cons 1) \<noteq> None" by code_simp
  then obtain s' where e: "act ?s (Cons 1) = Some s'" by blast
  have st: "sys_step ?s (the (act ?s (Cons 1)))" using act_step [OF e] e by simp
  have a: "available (ring ?s) ! 0 = 1" by code_simp
  show ?thesis using st a flags_never_reset [OF st a] by blast
qed

theorem concurrent_flags_bool_witness:
  "sys_step\<^sup>*\<^sup>* (init_sys main_ring [main_work] [2, 2, 2])
     (the (run_sched (init_sys main_ring [main_work] [2, 2, 2]) main_sched)) \<and>
   set (available (ring (the (run_sched (init_sys main_ring [main_work] [2, 2, 2]) main_sched)))) \<subseteq> {0, 1}"
  using main_hyps main_reach concurrent_flags_bool [of 10 "[2, 2, 2]" main_ring "[main_work]"] by blast

end
