(* ===== verification/Fanout.thy ===== *)
theory Fanout
  imports Concurrent "HOL-Library.Sublist"
begin

text \<open>
  Fan-out on the first lap. Every consumer of the ring is meant to receive the whole stream
  of put values in order (the fan-out of \<open>src/lmax.go\<close>, each consumer with its own read
  cursor). \<open>seen\<close> is what a consumer has received so far, counting the values its running
  \<open>Get\<close> has already copied out of the ring (\<open>get_pc_seen\<close>, by program point of
  \<open>get_step\<close>). \<open>fan_ok\<close> states that while the write cursor is below the ring size, what
  every consumer has seen is a prefix of the ghost \<open>stream\<close>; \<open>fan_step\<close> shows that every
  step of \<open>sys_step\<close> preserves it given \<open>sys_inv\<close>, the copy step by the slot tags of
  \<open>slots_ok\<close> (\<open>seen_copy\<close>), and \<open>first_lap_fanout\<close> concludes it for every reachable state.
  \<open>got_ok\<close>, on every lap, states that what a consumer has seen are values of the stream.
  Both invariants rest on \<open>step_shape\<close>: a step either moves no consumer and extends the
  stream, or moves one consumer without showing it a new value (\<open>quiet_step\<close>), or copies
  one slot (\<open>copy_step\<close>), whose value \<open>copy_value\<close> identifies from the slot tags.
  \<open>fan2_ok\<close> extends \<open>fan_ok\<close> to a full ring (\<open>writeCursor \<le> size\<close>) for the consumers
  that have seen at most one lap of the slots (\<open>fan2_step\<close>).
\<close>

fun get_pc_seen :: "'v cons_th \<Rightarrow> 'v get_pc \<Rightarrow> 'v iface list" where
  "get_pc_seen c (GetStart bs cid) = c_got c"
| "get_pc_seen c (GetStore fr) = c_got c @ take (nat (g_index fr) + 1) (g_results fr)"
| "get_pc_seen c (GetDone res) = c_got c @ res"
| "get_pc_seen c (GetLoop fr) = c_got c @ take (nat (g_index fr)) (g_results fr)"
| "get_pc_seen c (GetBarrier fr) = c_got c @ take (nat (g_index fr)) (g_results fr)"
| "get_pc_seen c (GetFlag fr) = c_got c @ take (nat (g_index fr)) (g_results fr)"
| "get_pc_seen c (GetCopy fr) = c_got c @ take (nat (g_index fr)) (g_results fr)"
| "get_pc_seen c (GetMinLoad fr) = c_got c @ take (nat (g_index fr)) (g_results fr)"
| "get_pc_seen c (GetMin fr m j) = c_got c @ take (nat (g_index fr)) (g_results fr)"
| "get_pc_seen c (GetPublish fr m) = c_got c @ take (nat (g_index fr)) (g_results fr)"

definition seen :: "'v cons_th \<Rightarrow> 'v iface list" where
  "seen c = (case c_pc c of CGet pc \<Rightarrow> get_pc_seen c pc | _ \<Rightarrow> c_got c)"

definition fan_ok :: "'v sys \<Rightarrow> bool" where
  "fan_ok s \<longleftrightarrow>
     (writeCursor (ring s) < rb_size (ring s) \<longrightarrow>
        (\<forall>i<length (conss s). prefix (seen (conss s ! i)) (stream s)))"

definition got_ok :: "'v sys \<Rightarrow> bool" where
  "got_ok s \<longleftrightarrow> (\<forall>i<length (conss s). set (seen (conss s ! i)) \<subseteq> set (stream s))"

definition fan2_ok :: "'v sys \<Rightarrow> bool" where
  "fan2_ok s \<longleftrightarrow>
     (writeCursor (ring s) \<le> rb_size (ring s) \<longrightarrow>
        (\<forall>i<length (conss s). int (length (seen (conss s ! i))) \<le> rb_size (ring s) \<longrightarrow>
           prefix (seen (conss s ! i)) (stream s)))"

definition ring_same :: "'v sys \<Rightarrow> 'v sys \<Rightarrow> bool" where
  "ring_same s s' \<longleftrightarrow>
     writeCursor (ring s') = writeCursor (ring s) \<and> rb_size (ring s') = rb_size (ring s)"

definition quiet_step :: "'v sys \<Rightarrow> 'v sys \<Rightarrow> bool" where
  "quiet_step s s' \<longleftrightarrow>
     (\<exists>i c. i < length (conss s) \<and> conss s' = (conss s)[i := c] \<and> stream s' = stream s \<and>
        ring_same s s' \<and> seen c = seen (conss s ! i))"

definition copy_step :: "'v sys \<Rightarrow> 'v sys \<Rightarrow> bool" where
  "copy_step s s' \<longleftrightarrow>
     (\<exists>i fr pc'. i < length (conss s) \<and> c_pc (conss s ! i) = CGet (GetCopy fr) \<and>
        get_step (ring s) (GetCopy fr) = Inr (ring s', pc') \<and>
        conss s' = (conss s)[i := (conss s ! i)\<lparr>c_pc := CGet pc'\<rparr>] \<and> stream s' = stream s)"

lemma prefix_snoc_nth:
  assumes "prefix xs ys" and "length xs < length ys"
  shows "prefix (xs @ [ys ! length xs]) ys"
proof -
  obtain zs where ys: "ys = xs @ zs" using assms(1) by (auto simp: prefix_def)
  then obtain z zs' where "zs = z # zs'" using assms(2) by (cases zs) auto
  then show ?thesis using ys by (simp add: prefix_def)
qed

lemma got_prefix_pc_seen: "prefix (c_got c) (get_pc_seen c pc)"
  by (cases pc) auto

lemma get_pc_seen_pc_upd [simp]:
  "get_pc_seen (c\<lparr>c_pc := x\<rparr>) pc = get_pc_seen c pc"
  by (cases pc) simp_all

lemma got_prefix_seen: "prefix (c_got c) (seen c)"
  by (cases "c_pc c") (auto simp: seen_def got_prefix_pc_seen)

lemma get_step_frame:
  "get_step rb pc = Inr (rb', pc') \<Longrightarrow>
   writeCursor rb' = writeCursor rb \<and> rb_size rb' = rb_size rb \<and> buffer rb' = buffer rb"
  by (induction rb pc rule: get_step.induct) (auto split: sum.splits if_splits)

lemma seen_same:
  assumes "get_step rb pc = Inr (rb', pc')" and "\<forall>fr. pc \<noteq> GetCopy fr"
    and "\<forall>fr. pc = GetStore fr \<longrightarrow> 0 \<le> g_index fr"
  shows "get_pc_seen c pc' = get_pc_seen c pc"
  using assms
  by (cases "(rb, pc)" rule: get_step.cases) (auto simp: nat_add_distrib split: sum.splits if_splits)

lemma put_step_size: "put_step rb pc = Inr (rb', pc') \<Longrightarrow> rb_size rb' = rb_size rb"
  by (induction rb pc rule: put_step.induct) (auto simp: Let_def split: sum.splits)

lemma fan_same_conss:
  assumes "fan_ok s" and "conss s' = conss s" and "stream s' = stream s @ xs"
    and "rb_size (ring s') = rb_size (ring s)" and "writeCursor (ring s) \<le> writeCursor (ring s')"
  shows "fan_ok s'"
  using assms by (auto simp: fan_ok_def)

lemma fan_cons_update:
  assumes "fan_ok s" and "i < length (conss s)" and "conss s' = (conss s)[i := c]"
    and "stream s' = stream s" and "ring s' = rb'"
    and "rb_size rb' = rb_size (ring s)" and "writeCursor rb' = writeCursor (ring s)"
    and "writeCursor (ring s) < rb_size (ring s) \<Longrightarrow> prefix (seen c) (stream s)"
  shows "fan_ok s'"
  unfolding fan_ok_def
proof (intro impI allI)
  fix j assume lap: "writeCursor (ring s') < rb_size (ring s')" and j: "j < length (conss s')"
  then have lap0: "writeCursor (ring s) < rb_size (ring s)" using assms(5-7) by simp
  show "prefix (seen (conss s' ! j)) (stream s')"
  proof (cases "j = i")
    case True
    then show ?thesis using assms(2-4,8) lap0 by simp
  next
    case False
    then show ?thesis using assms(1-4) lap0 j by (simp add: fan_ok_def)
  qed
qed

lemma copy_value:
  assumes inv: "sys_inv s" and i: "i < length (conss s)"
    and pc: "c_pc (conss s ! i) = CGet (GetCopy fr)"
    and st: "get_step (ring s) (GetCopy fr) = Inr (rb', pc')"
  shows "\<exists>t. get_pc_seen (conss s ! i) pc' =
               get_pc_seen (conss s ! i) (GetCopy fr) @ [stream s ! nat t] \<and>
             0 \<le> t \<and> t < writeCursor (ring s) \<and> t mod rb_size (ring s) = g_next fr mod rb_size (ring s) \<and>
             length (get_pc_seen (conss s ! i) (GetCopy fr)) = nat (g_next fr) \<and>
             g_next fr \<le> writeCursor (ring s)"
proof -
  let ?N = "rb_size (ring s)" and ?nx = "g_next fr" and ?W = "writeCursor (ring s)"
  have "cons_ok s i" using inv i by (simp add: sys_inv_def)
  then have il: "in_loop s i fr" and fl: "flagged s ?nx" using pc by (simp_all add: cons_ok_def)
  note cb = cursor_bounds [OF inv i]
  have fr: "?nx = readCursors (ring s) ! i + 1" "g_index fr = g_i fr" "0 \<le> g_i fr"
    "g_i fr < g_bs fr" "length (g_results fr) = nat (g_bs fr)"
    "readCursors (ring s) ! i + 1 = int (length (c_got (conss s ! i))) + g_i fr" "?nx \<le> ?W"
    using il by (simp_all add: in_loop_def frame_ok_def)
  have rok: "0 < ?N" "length (buffer (ring s)) = nat ?N" "length (available (ring s)) = nat ?N"
    using inv by (simp_all add: sys_inv_def ring_ok_def)
  have nx: "0 \<le> ?nx" using fr cb by simp
  let ?k = "?nx mod ?N"
  have k: "0 \<le> ?k" "nat ?k < nat ?N" using rok(1) by simp_all
  have so: "slot_ok s (nat ?k)" using inv k by (simp add: sys_inv_def slots_ok_def)
  have a1: "available (ring s) ! nat ?k = 1" using fl by (simp add: flagged_def)
  let ?t = "tags s ! nat ?k"
  have t: "0 \<le> ?t" "?t < ?W" "?t mod ?N = ?k" "buffer (ring s) ! nat ?k = stream s ! nat ?t"
    using so a1 k by (auto simp: slot_ok_def)
  let ?v = "buffer (ring s) ! nat ?k"
  have ix: "nat (g_index fr) < length (g_results fr)" using fr by simp
  have e: "get_step (ring s) (GetCopy fr) =
      Inr (ring s, GetStore (fr\<lparr>g_results := (g_results fr)[nat (g_index fr) := ?v]\<rparr>))"
    using nx k rok ix fr by (simp add: go_simps)
  have pc': "pc' = GetStore (fr\<lparr>g_results := (g_results fr)[nat (g_index fr) := ?v]\<rparr>)"
    using st e by simp
  have "get_pc_seen (conss s ! i) pc' = get_pc_seen (conss s ! i) (GetCopy fr) @ [?v]"
    using pc' ix by (simp add: take_update_Suc)
  moreover have "length (get_pc_seen (conss s ! i) (GetCopy fr)) = nat ?nx" using fr ix by simp
  ultimately show ?thesis using t fr(7) by auto
qed

lemma seen_copy:
  assumes inv: "sys_inv s" and i: "i < length (conss s)"
    and pc: "c_pc (conss s ! i) = CGet (GetCopy fr)"
    and st: "get_step (ring s) (GetCopy fr) = Inr (rb', pc')"
    and lap: "writeCursor (ring s) < rb_size (ring s)"
    and pre: "prefix (get_pc_seen (conss s ! i) (GetCopy fr)) (stream s)"
  shows "prefix (get_pc_seen (conss s ! i) pc') (stream s)"
proof -
  let ?A = "get_pc_seen (conss s ! i) (GetCopy fr)" and ?N = "rb_size (ring s)"
  obtain t where t: "get_pc_seen (conss s ! i) pc' = ?A @ [stream s ! nat t]" "0 \<le> t"
    "t < writeCursor (ring s)" "t mod ?N = g_next fr mod ?N" "length ?A = nat (g_next fr)"
    "g_next fr \<le> writeCursor (ring s)"
    using copy_value [OF inv i pc st] by blast
  have w: "int (length (stream s)) = writeCursor (ring s)"
    using inv by (simp add: sys_inv_def count_ok_def)
  have "0 \<le> g_next fr" using cursor_bounds [OF inv i] inv i pc
    by (fastforce simp: sys_inv_def cons_ok_def in_loop_def frame_ok_def)
  then have "t = g_next fr" using t(2-4,6) lap by simp
  then have "length ?A < length (stream s)" and "nat t = length ?A" using t w by linarith+
  then show ?thesis using t(1) prefix_snoc_nth [OF pre] by simp
qed

lemma step_write_mono:
  assumes "sys_step s s'" and "sys_inv s"
  shows "writeCursor (ring s) \<le> writeCursor (ring s')"
proof -
  have "\<exists>xs. stream s' = stream s @ xs"
    using assms(1)
    by (induction rule: sys_step.induct)
       (auto simp: put_ghost_def prod_set_def cons_set_def split: put_pc.splits list.splits)
  moreover have "sys_inv s'" using sys_step_inv [OF assms] .
  ultimately show ?thesis using assms(2) by (auto simp: sys_inv_def count_ok_def)
qed

lemma got_cons_update:
  assumes "got_ok s" and "i < length (conss s)" and "conss s' = (conss s)[i := c]"
    and "stream s' = stream s" and "set (seen c) \<subseteq> set (stream s)"
  shows "got_ok s'"
  unfolding got_ok_def
proof (intro allI impI)
  fix j assume j: "j < length (conss s')"
  show "set (seen (conss s' ! j)) \<subseteq> set (stream s')"
    using assms j by (cases "j = i") (auto simp: got_ok_def)
qed

lemma put_ghost_conss [simp]: "conss (put_ghost n pc s) = conss s"
  by (simp add: put_ghost_def split: put_pc.splits list.splits)

lemma put_ghost_ring [simp]: "ring (put_ghost n pc s) = ring s"
  by (simp add: put_ghost_def split: put_pc.splits list.splits)

lemma put_ghost_stream: "\<exists>xs. stream (put_ghost n pc s) = stream s @ xs"
  by (auto simp: put_ghost_def split: put_pc.splits list.splits)

lemma quiet_cons_set:
  "i < length (conss s) \<Longrightarrow> seen c = seen (conss s ! i) \<Longrightarrow> ring_same s (cons_set s i rb c) \<Longrightarrow>
   quiet_step s (cons_set s i rb c)"
  unfolding quiet_step_def by (rule exI [of _ i], rule exI [of _ c]) (simp add: cons_set_def)

text \<open>The shape of a step, as far as what the consumers have seen is concerned: either no
  consumer moves and the stream grows, or one consumer moves without seeing anything new, or
  one consumer copies a slot.\<close>

lemma step_shape:
  assumes "sys_step s s'" and "sys_inv s"
  shows "(conss s' = conss s \<and> (\<exists>xs. stream s' = stream s @ xs) \<and>
          rb_size (ring s') = rb_size (ring s)) \<or> quiet_step s s' \<or> copy_step s s'"
  using assms
proof (induction rule: sys_step.induct)
  case (put_move s i pc rb' pc')
  let ?t = "prod_set s i rb' ((prods s ! i)\<lparr>p_pc := Some pc'\<rparr>)"
  obtain xs where "stream (put_ghost (rb_size (ring s)) pc ?t) = stream ?t @ xs"
    using put_ghost_stream by blast
  then show ?case using put_step_size [OF put_move.hyps(5)]
    by (intro disjI1) (simp add: prod_set_def)
next
  case (cons_start s i)
  have "quiet_step s (cons_set s i (ring s) ((conss s ! i)\<lparr>c_pc := CSelect\<rparr>))"
    by (rule quiet_cons_set) (use cons_start in \<open>simp_all add: seen_def ring_same_def cons_set_def\<close>)
  then show ?case by blast
next
  case (cons_stop s i)
  have "quiet_step s (cons_set s i (ring s) ((conss s ! i)\<lparr>c_pc := CStopped\<rparr>))"
    by (rule quiet_cons_set) (use cons_stop in \<open>simp_all add: seen_def ring_same_def cons_set_def\<close>)
  then show ?case by blast
next
  case (cons_call s i)
  have "quiet_step s (cons_set s i (ring s)
          ((conss s ! i)\<lparr>c_pc := CGet (GetStart (c_bs (conss s ! i)) (int i))\<rparr>))"
    by (rule quiet_cons_set) (use cons_call in \<open>simp_all add: seen_def ring_same_def cons_set_def\<close>)
  then show ?case by blast
next
  case (cons_move s i pc rb' pc')
  show ?case
  proof (cases "\<exists>fr. pc = GetCopy fr")
    case True
    then obtain fr where "pc = GetCopy fr" by blast
    then have "copy_step s (cons_set s i rb' ((conss s ! i)\<lparr>c_pc := CGet pc'\<rparr>))"
      using cons_move.hyps by (auto simp: cons_set_def copy_step_def)
    then show ?thesis by blast
  next
    case False
    have "cons_ok s i" using cons_move by (simp add: sys_inv_def)
    then have "\<forall>fr. pc = GetStore fr \<longrightarrow> 0 \<le> g_index fr"
      using cons_move.hyps(3) by (auto simp: cons_ok_def in_loop_def frame_ok_def)
    then have same: "get_pc_seen (conss s ! i) pc' = get_pc_seen (conss s ! i) pc"
      using seen_same [OF cons_move.hyps(5)] False by blast
    have "quiet_step s (cons_set s i rb' ((conss s ! i)\<lparr>c_pc := CGet pc'\<rparr>))"
      by (rule quiet_cons_set)
         (use same cons_move.hyps get_step_frame [OF cons_move.hyps(5)] in
           \<open>simp_all add: seen_def ring_same_def cons_set_def\<close>)
    then show ?thesis by blast
  qed
next
  case (cons_return s i res)
  have "quiet_step s (cons_set s i (ring s)
          ((conss s ! i)\<lparr>c_pc := after_get s res, c_got := c_got (conss s ! i) @ res\<rparr>))"
    by (rule quiet_cons_set)
       (use cons_return in \<open>simp_all add: seen_def ring_same_def cons_set_def after_get_def split: cons_mode.split\<close>)
  then show ?case by blast
qed (simp_all add: prod_set_def)

lemma fan_step:
  assumes step: "sys_step s s'" and inv: "sys_inv s" and ok: "fan_ok s"
  shows "fan_ok s'"
  using step_shape [OF step inv]
proof (elim disjE conjE exE)
  fix xs assume "conss s' = conss s" and "stream s' = stream s @ xs"
    and "rb_size (ring s') = rb_size (ring s)"
  then show ?thesis using fan_same_conss [OF ok] step_write_mono [OF step inv] by blast
next
  assume "quiet_step s s'"
  then obtain i c where i: "i < length (conss s)" and q: "conss s' = (conss s)[i := c]"
    "stream s' = stream s" "ring_same s s'" "seen c = seen (conss s ! i)"
    by (auto simp: quiet_step_def)
  have "writeCursor (ring s) < rb_size (ring s) \<Longrightarrow> prefix (seen c) (stream s)"
    using ok i q(4) by (simp add: fan_ok_def)
  then show ?thesis using q(1-3)
    by (intro fan_cons_update [OF ok i, where rb' = "ring s'"]) (simp_all add: ring_same_def)
next
  assume "copy_step s s'"
  then obtain i fr pc' where i: "i < length (conss s)" and pc: "c_pc (conss s ! i) = CGet (GetCopy fr)"
    and st: "get_step (ring s) (GetCopy fr) = Inr (ring s', pc')"
    and c: "conss s' = (conss s)[i := (conss s ! i)\<lparr>c_pc := CGet pc'\<rparr>]" "stream s' = stream s"
    by (auto simp: copy_step_def)
  have fr: "writeCursor (ring s') = writeCursor (ring s)" "rb_size (ring s') = rb_size (ring s)"
    using get_step_frame [OF st] by simp_all
  have "writeCursor (ring s) < rb_size (ring s) \<Longrightarrow> prefix (seen (conss s ! i)) (stream s)"
    using ok i by (simp add: fan_ok_def)
  then have "writeCursor (ring s) < rb_size (ring s) \<Longrightarrow>
        prefix (seen ((conss s ! i)\<lparr>c_pc := CGet pc'\<rparr>)) (stream s)"
    using seen_copy [OF inv i pc st] pc by (simp add: seen_def)
  then show ?thesis using c fr
    by (intro fan_cons_update [OF ok i, where rb' = "ring s'"]) simp_all
qed

lemma fan_init: "fan_ok (init_sys rb work bss)"
  by (auto simp: fan_ok_def init_sys_def seen_def)

lemma reach_fan:
  assumes "sys_step\<^sup>*\<^sup>* s0 s" and "sys_inv s0" and "fan_ok s0"
  shows "sys_inv s \<and> fan_ok s"
  using assms by (induction rule: rtranclp_induct) (auto intro: sys_step_inv fan_step)

lemma fan2_copy:
  assumes inv: "sys_inv s" and i: "i < length (conss s)"
    and pc: "c_pc (conss s ! i) = CGet (GetCopy fr)"
    and st: "get_step (ring s) (GetCopy fr) = Inr (rb', pc')"
    and lap: "writeCursor (ring s) \<le> rb_size (ring s)"
    and len: "int (length (get_pc_seen (conss s ! i) pc')) \<le> rb_size (ring s)"
    and old: "int (length (get_pc_seen (conss s ! i) (GetCopy fr))) \<le> rb_size (ring s) \<Longrightarrow>
              prefix (get_pc_seen (conss s ! i) (GetCopy fr)) (stream s)"
  shows "prefix (get_pc_seen (conss s ! i) pc') (stream s)"
proof -
  let ?A = "get_pc_seen (conss s ! i) (GetCopy fr)" and ?N = "rb_size (ring s)"
  obtain t where t: "get_pc_seen (conss s ! i) pc' = ?A @ [stream s ! nat t]" "0 \<le> t"
    "t < writeCursor (ring s)" "t mod ?N = g_next fr mod ?N" "length ?A = nat (g_next fr)"
    using copy_value [OF inv i pc st] by blast
  have w: "int (length (stream s)) = writeCursor (ring s)"
    using inv by (simp add: sys_inv_def count_ok_def)
  have nx: "0 \<le> g_next fr" using cursor_bounds [OF inv i] inv i pc
    by (fastforce simp: sys_inv_def cons_ok_def in_loop_def frame_ok_def)
  have "g_next fr < ?N" using len t(1,5) nx by simp
  then have "t = g_next fr" using t(2-4) lap nx by simp
  then have "length ?A < length (stream s)" and "nat t = length ?A" using t w by linarith+
  moreover have "prefix ?A (stream s)" using old len t(1) by simp
  ultimately show ?thesis using t(1) prefix_snoc_nth by metis
qed

lemma fan2_step:
  assumes step: "sys_step s s'" and inv: "sys_inv s" and ok: "fan2_ok s"
  shows "fan2_ok s'"
  unfolding fan2_ok_def
proof (intro impI allI)
  fix j assume lap: "writeCursor (ring s') \<le> rb_size (ring s')" and j: "j < length (conss s')"
    and len: "int (length (seen (conss s' ! j))) \<le> rb_size (ring s')"
  have wm: "writeCursor (ring s) \<le> writeCursor (ring s')" using step_write_mono [OF step inv] .
  show "prefix (seen (conss s' ! j)) (stream s')"
    using step_shape [OF step inv]
  proof (elim disjE conjE exE)
    fix xs assume c: "conss s' = conss s" and st: "stream s' = stream s @ xs"
      and n: "rb_size (ring s') = rb_size (ring s)"
    have "prefix (seen (conss s ! j)) (stream s)" using ok lap len j wm c n by (simp add: fan2_ok_def)
    then show ?thesis using c st by (simp add: prefix_append)
  next
    assume "quiet_step s s'"
    then obtain i c where i: "i < length (conss s)" and q: "conss s' = (conss s)[i := c]"
      "stream s' = stream s" "ring_same s s'" "seen c = seen (conss s ! i)"
      by (auto simp: quiet_step_def)
    have "seen (conss s' ! j) = seen (conss s ! j)" using q(1,4) i by (cases "j = i") simp_all
    moreover have "j < length (conss s)" using j q(1) by simp
    ultimately show ?thesis using ok lap len q(1-3) by (simp add: fan2_ok_def ring_same_def)
  next
    assume "copy_step s s'"
    then obtain i fr pc' where i: "i < length (conss s)" and pc: "c_pc (conss s ! i) = CGet (GetCopy fr)"
      and st: "get_step (ring s) (GetCopy fr) = Inr (ring s', pc')"
      and c: "conss s' = (conss s)[i := (conss s ! i)\<lparr>c_pc := CGet pc'\<rparr>]" and sm: "stream s' = stream s"
      by (auto simp: copy_step_def)
    have fr: "writeCursor (ring s') = writeCursor (ring s)" "rb_size (ring s') = rb_size (ring s)"
      using get_step_frame [OF st] by simp_all
    show ?thesis
    proof (cases "j = i")
      case True
      have "int (length (seen (conss s ! i))) \<le> rb_size (ring s) \<Longrightarrow> prefix (seen (conss s ! i)) (stream s)"
        using ok lap i fr by (simp add: fan2_ok_def)
      then have "prefix (get_pc_seen (conss s ! i) pc') (stream s)"
        using fan2_copy [OF inv i pc st] lap len c True i fr pc by (simp add: seen_def)
      then show ?thesis using True c sm i by (simp add: seen_def)
    next
      case False
      then show ?thesis using ok lap len j c sm fr by (simp add: fan2_ok_def)
    qed
  qed
qed

lemma fan2_init: "fan2_ok (init_sys rb work bss)"
  by (auto simp: fan2_ok_def init_sys_def seen_def)

lemma got_copy:
  assumes inv: "sys_inv s" and i: "i < length (conss s)"
    and pc: "c_pc (conss s ! i) = CGet (GetCopy fr)"
    and st: "get_step (ring s) (GetCopy fr) = Inr (rb', pc')"
    and old: "set (get_pc_seen (conss s ! i) (GetCopy fr)) \<subseteq> set (stream s)"
  shows "set (get_pc_seen (conss s ! i) pc') \<subseteq> set (stream s)"
proof -
  obtain t where t: "get_pc_seen (conss s ! i) pc' =
      get_pc_seen (conss s ! i) (GetCopy fr) @ [stream s ! nat t]" "0 \<le> t" "t < writeCursor (ring s)"
    using copy_value [OF inv i pc st] by blast
  have "int (length (stream s)) = writeCursor (ring s)"
    using inv by (simp add: sys_inv_def count_ok_def)
  then have "stream s ! nat t \<in> set (stream s)" using t(2,3) by simp
  then show ?thesis using t(1) old by simp
qed

lemma got_step:
  assumes step: "sys_step s s'" and inv: "sys_inv s" and ok: "got_ok s"
  shows "got_ok s'"
  using step_shape [OF step inv]
proof (elim disjE conjE exE)
  fix xs assume "conss s' = conss s" and "stream s' = stream s @ xs"
  then show ?thesis using ok by (auto simp: got_ok_def)
next
  assume "quiet_step s s'"
  then obtain i c where i: "i < length (conss s)" and q: "conss s' = (conss s)[i := c]"
    "stream s' = stream s" "seen c = seen (conss s ! i)"
    by (auto simp: quiet_step_def)
  have "set (seen (conss s ! i)) \<subseteq> set (stream s)" using ok i by (simp add: got_ok_def)
  then have sc: "set (seen c) \<subseteq> set (stream s)" using q(3) by simp
  show ?thesis by (rule got_cons_update [OF ok i q(1,2) sc])
next
  assume "copy_step s s'"
  then obtain i fr pc' where i: "i < length (conss s)" and pc: "c_pc (conss s ! i) = CGet (GetCopy fr)"
    and st: "get_step (ring s) (GetCopy fr) = Inr (ring s', pc')"
    and c: "conss s' = (conss s)[i := (conss s ! i)\<lparr>c_pc := CGet pc'\<rparr>]" "stream s' = stream s"
    by (auto simp: copy_step_def)
  have "set (seen (conss s ! i)) \<subseteq> set (stream s)" using ok i by (simp add: got_ok_def)
  then have "set (get_pc_seen (conss s ! i) pc') \<subseteq> set (stream s)"
    using got_copy [OF inv i pc st] pc by (simp add: seen_def)
  then have sc: "set (seen ((conss s ! i)\<lparr>c_pc := CGet pc'\<rparr>)) \<subseteq> set (stream s)"
    by (simp add: seen_def)
  show ?thesis by (rule got_cons_update [OF ok i c sc])
qed

lemma got_init: "got_ok (init_sys rb work bss)"
  by (auto simp: got_ok_def init_sys_def seen_def)

lemma got_okD:
  "got_ok s \<Longrightarrow> i < length (conss s) \<Longrightarrow> set (c_got (conss s ! i)) \<subseteq> set (stream s)"
  using got_prefix_seen set_mono_prefix unfolding got_ok_def by blast

lemma fan_okD:
  "fan_ok s \<Longrightarrow> writeCursor (ring s) < rb_size (ring s) \<Longrightarrow> i < length (conss s) \<Longrightarrow>
   prefix (c_got (conss s ! i)) (stream s)"
  using got_prefix_seen unfolding fan_ok_def by (blast intro: prefix_order.trans)

lemma cursor_seen:
  assumes "sys_inv s" and "i < length (conss s)"
  shows "readCursors (ring s) ! i + 1 \<le> int (length (seen (conss s ! i)))"
proof -
  have c: "cons_ok s i" using assms by (simp add: sys_inv_def)
  show ?thesis
  proof (cases "c_pc (conss s ! i)")
    case (CGet pc)
    then show ?thesis using c
      by (cases pc) (auto simp: cons_ok_def seen_def idle_count_def in_loop_def frame_ok_def)
  qed (use c in \<open>simp_all add: cons_ok_def seen_def idle_count_def\<close>)
qed

lemma reach_with:
  assumes "sys_step\<^sup>*\<^sup>* s0 s" and "sys_inv s0" and "P s0"
    and "\<And>s s'. sys_step s s' \<Longrightarrow> sys_inv s \<Longrightarrow> P s \<Longrightarrow> P s'"
  shows "sys_inv s \<and> P s"
  using assms(1-3) by (induction rule: rtranclp_induct) (auto intro: sys_step_inv assms(4))

lemma init_cmode:
  assumes "new_ring_buffer sz (int (length bss)) = Inr rb" and "0 < sz"
    and "\<forall>bs\<in>set bss. 0 \<le> bs" and "int (work_total work) \<le> seq_limit"
  shows "sys_inv ((init_sys rb work bss)\<lparr>cmode := b\<rparr>) \<and>
         fan_ok ((init_sys rb work bss)\<lparr>cmode := b\<rparr>) \<and>
         got_ok ((init_sys rb work bss)\<lparr>cmode := b\<rparr>)"
proof -
  have "fan_ok (init_sys rb work bss)" and "got_ok (init_sys rb work bss)"
    by (rule fan_init, rule got_init)
  then show ?thesis using inv_cmode [OF inv_init [OF assms]]
    by (simp add: fan_ok_def got_ok_def)
qed

text \<open>
  C19: under every interleaving every consumer cursor lies between \<open>-1\<close> and the write
  cursor, and while the write cursor is below the ring size it lies strictly below it, at
  most the highest claimed sequence \<open>writeCursor - 1\<close>: the specification's first invariant.
  The bound that holds on every lap is one weaker than the specification's: after a wrap,
  the guard \<open>nextRead <= writeCursor\<close> of \<open>Get\<close> lets a consumer read the unclaimed
  sequence \<open>writeCursor\<close> from a stale slot (C6), so the specification's invariant holds on
  the first lap only.
\<close>

theorem concurrent_cursor_bounds:
  assumes "new_ring_buffer sz (int (length bss)) = Inr rb" and "0 < sz"
    and "\<forall>bs\<in>set bss. 0 \<le> bs" and "int (work_total work) \<le> seq_limit"
    and "sys_step\<^sup>*\<^sup>* (init_sys rb work bss) s"
  shows "\<forall>k<length (readCursors (ring s)).
           -1 \<le> readCursors (ring s) ! k \<and> readCursors (ring s) ! k \<le> writeCursor (ring s) \<and>
           (writeCursor (ring s) < rb_size (ring s) \<longrightarrow> readCursors (ring s) ! k < writeCursor (ring s))"
proof (intro allI impI conjI)
  fix k assume k: "k < length (readCursors (ring s))"
  have "sys_inv s \<and> fan_ok s"
    using reach_with [where P = fan_ok, OF assms(5) inv_init [OF assms(1-4)] fan_init] fan_step by blast
  then have inv: "sys_inv s" and fan: "fan_ok s" by simp_all
  have k': "k < length (conss s)" using inv k by (simp add: sys_inv_def ring_ok_def)
  show "-1 \<le> readCursors (ring s) ! k" and "readCursors (ring s) ! k \<le> writeCursor (ring s)"
    using cursor_bounds [OF inv k'] by simp_all
  assume lap: "writeCursor (ring s) < rb_size (ring s)"
  have "prefix (seen (conss s ! k)) (stream s)" using fan lap k' by (simp add: fan_ok_def)
  then have "length (seen (conss s ! k)) \<le> length (stream s)" by (rule prefix_length_le)
  moreover have "int (length (stream s)) = writeCursor (ring s)"
    using inv by (simp add: sys_inv_def count_ok_def)
  ultimately show "readCursors (ring s) ! k < writeCursor (ring s)"
    using cursor_seen [OF inv k'] by linarith
qed

text \<open>
  C24: while the producers are still on their first lap of the ring (the write cursor below
  the ring size), every consumer has received exactly a prefix of the claimed stream, under
  every interleaving: each value it returns is the value put for that sequence, in order,
  with none lost or repeated. The race of \<open>concurrent_stale_read\<close> needs a second lap.
\<close>

theorem first_lap_fanout:
  assumes "new_ring_buffer sz (int (length bss)) = Inr rb" and "0 < sz"
    and "\<forall>bs\<in>set bss. 0 \<le> bs" and "int (work_total work) \<le> seq_limit"
    and "sys_step\<^sup>*\<^sup>* (init_sys rb work bss) s"
    and "writeCursor (ring s) < rb_size (ring s)"
  shows "\<forall>i<length (conss s). prefix (c_got (conss s ! i)) (stream s)"
proof -
  have "fan_ok s"
    using reach_with [where P = fan_ok, OF assms(5) inv_init [OF assms(1-4)] fan_init] fan_step by blast
  then show ?thesis using assms(6) fan_okD by blast
qed

theorem first_lap_fanout_witness:
  "sys_step\<^sup>*\<^sup>* (init_sys main_ring [main_work] [2, 2, 2])
     (the (run_sched (init_sys main_ring [main_work] [2, 2, 2]) main_sched)) \<and>
   writeCursor (ring (the (run_sched (init_sys main_ring [main_work] [2, 2, 2]) main_sched))) <
   rb_size (ring (the (run_sched (init_sys main_ring [main_work] [2, 2, 2]) main_sched))) \<and>
   prefix (c_got (conss (the (run_sched (init_sys main_ring [main_work] [2, 2, 2]) main_sched)) ! 0))
     (stream (the (run_sched (init_sys main_ring [main_work] [2, 2, 2]) main_sched)))"
proof -
  let ?s = "the (run_sched (init_sys main_ring [main_work] [2, 2, 2]) main_sched)"
  have "0 < length (conss ?s) \<and> writeCursor (ring ?s) < rb_size (ring ?s)" by code_simp
  then show ?thesis
    using main_hyps main_reach first_lap_fanout [of 10 "[2, 2, 2]" main_ring "[main_work]" ?s]
    by auto
qed

text \<open>
  C25: under every interleaving and on every lap, each value a consumer has received is a
  value some producer put: \<open>Get\<close> copies only slots whose flag is set, and a flagged slot
  holds the value of a claimed sequence. Stale reads (\<open>concurrent_stale_read\<close>) return old values, never values
  out of thin air or the \<open>nil\<close> of an unwritten slot (unless \<open>nil\<close> was put).
\<close>

theorem received_were_put:
  assumes "new_ring_buffer sz (int (length bss)) = Inr rb" and "0 < sz"
    and "\<forall>bs\<in>set bss. 0 \<le> bs" and "int (work_total work) \<le> seq_limit"
    and "sys_step\<^sup>*\<^sup>* (init_sys rb work bss) s"
  shows "\<forall>i<length (conss s). set (c_got (conss s ! i)) \<subseteq> set (stream s)"
proof -
  have "got_ok s"
    using reach_with [where P = got_ok, OF assms(5) inv_init [OF assms(1-4)] got_init] got_step by blast
  then show ?thesis using got_okD by blast
qed

theorem received_were_put_witness:
  "sys_step\<^sup>*\<^sup>* (init_sys main_ring [main_work] [2, 2, 2])
     (the (run_sched (init_sys main_ring [main_work] [2, 2, 2]) main_sched)) \<and>
   set (c_got (conss (the (run_sched (init_sys main_ring [main_work] [2, 2, 2]) main_sched)) ! 0)) \<subseteq>
     set (stream (the (run_sched (init_sys main_ring [main_work] [2, 2, 2]) main_sched)))"
proof -
  let ?s = "the (run_sched (init_sys main_ring [main_work] [2, 2, 2]) main_sched)"
  have "0 < length (conss ?s)" by code_simp
  then show ?thesis
    using main_hyps main_reach received_were_put [of 10 "[2, 2, 2]" main_ring "[main_work]" ?s]
    by auto
qed

theorem concurrent_cursor_bounds_witness:
  "sys_step\<^sup>*\<^sup>* (init_sys main_ring [main_work] [2, 2, 2])
     (the (run_sched (init_sys main_ring [main_work] [2, 2, 2]) main_sched)) \<and>
   -1 \<le> readCursors (ring (the (run_sched (init_sys main_ring [main_work] [2, 2, 2]) main_sched))) ! 0 \<and>
   readCursors (ring (the (run_sched (init_sys main_ring [main_work] [2, 2, 2]) main_sched))) ! 0 \<le>
   writeCursor (ring (the (run_sched (init_sys main_ring [main_work] [2, 2, 2]) main_sched))) \<and>
   writeCursor (ring (the (run_sched (init_sys main_ring [main_work] [2, 2, 2]) main_sched))) <
   rb_size (ring (the (run_sched (init_sys main_ring [main_work] [2, 2, 2]) main_sched))) \<and>
   readCursors (ring (the (run_sched (init_sys main_ring [main_work] [2, 2, 2]) main_sched))) ! 0 <
   writeCursor (ring (the (run_sched (init_sys main_ring [main_work] [2, 2, 2]) main_sched)))"
proof -
  let ?s = "the (run_sched (init_sys main_ring [main_work] [2, 2, 2]) main_sched)"
  have "0 < length (readCursors (ring ?s)) \<and> writeCursor (ring ?s) < rb_size (ring ?s)" by code_simp
  then show ?thesis
    using main_hyps main_reach concurrent_cursor_bounds [of 10 "[2, 2, 2]" main_ring "[main_work]" ?s]
    by blast
qed

end
