(* ===== verification/TestRuns.thy ===== *)
theory TestRuns
  imports Fanout
begin

text \<open>
  The concurrent tests and benchmarks of \<open>src/lmax_test.go\<close> as systems of the interleaving
  model, and what every interleaving of them guarantees.
  \<^item> \<open>TestBasicFunctionality\<close> (lines 9--40): \<open>NewRingBuffer(10, 2)\<close>, ten
    \<open>Producer\<close> calls run to completion, then two goroutines that each call
    \<open>Get(5, id)\<close> once: the \<open>OneGet\<close> mode (\<open>test_basic_sys\<close>). \<open>one_get_ok\<close> says
    that no goroutine's \<open>Get\<close> stops before five values, and \<open>fan2_ok\<close> of theory
    \<open>Fanout\<close> that what each receives is a prefix of the stream.
  \<^item> \<open>TestConcurrency\<close> (lines 42--77): \<open>NewRingBuffer(100, 3)\<close>, three producer goroutines
    each calling \<open>Producer(rb, id*100+j)\<close> for \<open>j < 100\<close>, and three consumer goroutines
    that call \<open>Get(10, id)\<close> until it returns an empty batch. Their loop has no stop channel:
    it is the \<open>UntilEmpty\<close> mode of theory \<open>Interleaving\<close> (\<open>test_concurrency_sys\<close>).
  \<^item> \<open>BenchmarkSingleProducerSingleConsumer\<close> (lines 79--89): \<open>NewRingBuffer(100, 1)\<close>, one
    \<open>Consumer\<close> with batches of 10, the benchmark goroutine putting \<open>0, \<dots>, b.N - 1\<close> one
    at a time, then \<open>close(stopCh)\<close> (\<open>bench_spsc_sys\<close>).
  \<^item> \<open>BenchmarkMultipleProducersMultipleConsumers\<close> (lines 91--107) starts
    \<open>NewRingBuffer(1000, 3)\<close> with three \<open>Consumer\<close>s and the producer goroutines of
    \<open>b.RunParallel\<close>: an \<open>init_sys\<close> start like \<open>main\<close>'s, so the theorems of
    theories \<open>Concurrent\<close> and \<open>Fanout\<close> about every such start apply to it as they stand.
  The sleeps of the tests are not modelled: every interleaving they allow is a run.
  On the producer side, \<open>prod_rest\<close> is what a producer still has to claim;
  \<open>claim_shape\<close> shows that a step either claims nothing or moves the head of one producer's
  rest to the end of the stream. Hence a lone producer's stream is a prefix of its work
  (\<open>solo_ok\<close>) and the stream of any system holds only produced values (\<open>values_ok\<close>).
\<close>

definition unclaimed :: "'v prod_th \<Rightarrow> 'v iface list" where
  "unclaimed p = (case p_pc p of Some (PutAdd ds) \<Rightarrow> ds | _ \<Rightarrow> [])"

definition prod_rest :: "'v prod_th \<Rightarrow> 'v iface list" where
  "prod_rest p = unclaimed p @ concat (p_todo p)"

definition solo_ok :: "'v iface list \<Rightarrow> 'v sys \<Rightarrow> bool" where
  "solo_ok w s \<longleftrightarrow> length (prods s) = 1 \<and> stream s @ prod_rest (prods s ! 0) = w"

definition values_ok :: "'v iface set \<Rightarrow> 'v sys \<Rightarrow> bool" where
  "values_ok V s \<longleftrightarrow> set (stream s) \<subseteq> V \<and> (\<forall>p\<in>set (prods s). set (prod_rest p) \<subseteq> V)"

definition test_concurrency_work :: "int iface list list list" where
  "test_concurrency_work = map (\<lambda>id. map (\<lambda>j. [Some (id * 100 + j)]) [0..99]) [0..2]"

definition test_concurrency_sys :: "int sys option" where
  "test_concurrency_sys =
     (case new_ring_buffer 100 3 of
        Inl e \<Rightarrow> None
      | Inr rb \<Rightarrow> Some ((init_sys rb test_concurrency_work [10, 10, 10])\<lparr>cmode := UntilEmpty\<rparr>))"

definition bench_spsc_sys :: "nat \<Rightarrow> int sys option" where
  "bench_spsc_sys n =
     (case new_ring_buffer 100 1 of
        Inl e \<Rightarrow> None
      | Inr rb \<Rightarrow> Some (init_sys rb [map (\<lambda>i. [Some (int i)]) [0..<n]] [10]))"

definition test_basic_work :: "int iface list list list" where
  "test_basic_work = [map (\<lambda>i. [Some i]) [0..9]]"

text \<open>\<open>TestBasicFunctionality\<close> starts its two goroutines once its ten \<open>Producer\<close> calls
  are done: the state after producer 0 has run alone for its six steps per call.\<close>

definition test_basic_sys :: "int sys option" where
  "test_basic_sys =
     (case new_ring_buffer 10 2 of
        Inl e \<Rightarrow> None
      | Inr rb \<Rightarrow> run_sched ((init_sys rb test_basic_work [5, 5])\<lparr>cmode := OneGet\<rparr>) (replicate 60 (Prod 0)))"

fun one_get_pc :: "int \<Rightarrow> 'v get_pc \<Rightarrow> bool" where
  "one_get_pc bs (GetMinLoad fr) \<longleftrightarrow> g_i fr = bs"
| "one_get_pc bs (GetMin fr m j) \<longleftrightarrow> g_i fr = bs"
| "one_get_pc bs (GetPublish fr m) \<longleftrightarrow> g_i fr = bs"
| "one_get_pc bs (GetDone res) \<longleftrightarrow> int (length res) = bs"
| "one_get_pc bs _ \<longleftrightarrow> True"

definition one_get_th :: "int \<Rightarrow> int \<Rightarrow> int \<Rightarrow> 'v cons_th \<Rightarrow> bool" where
  "one_get_th bs w n c \<longleftrightarrow>
     c_bs c = bs \<and> 0 \<le> bs \<and> bs < n \<and> bs \<le> w + 1 \<and>
     (case c_pc c of
        CStopped \<Rightarrow> int (length (c_got c)) = bs
      | CGet pc \<Rightarrow> c_got c = [] \<and> one_get_pc bs pc
      | _ \<Rightarrow> c_got c = [])"

definition one_get_ok :: "int \<Rightarrow> int \<Rightarrow> 'v iface list \<Rightarrow> 'v sys \<Rightarrow> bool" where
  "one_get_ok bs w st s \<longleftrightarrow>
     cmode s = OneGet \<and> \<not> closed s \<and> producers_done s \<and> writeCursor (ring s) = w \<and>
     stream s = st \<and> list_all (one_get_th bs w (rb_size (ring s))) (conss s)"

text \<open>A schedule used to exhibit runs: producer 0 puts eleven values (six steps per
  \<open>Put\<close> of one value), then consumer 0 gets its first batch of ten.\<close>

definition test_concurrency_sched :: "thread list" where
  "test_concurrency_sched = replicate 66 (Prod 0) @ replicate 80 (Cons 0)"

text \<open>The two goroutines of \<open>TestBasicFunctionality\<close> taking turns, one step each.\<close>

definition test_basic_sched :: "thread list" where
  "test_basic_sched = concat (replicate 35 [Cons 0, Cons 1])"

lemma put_step_unclaimed:
  "put_step rb pc = Inr (rb', pc') \<Longrightarrow> (case pc' of PutAdd ds \<Rightarrow> False | _ \<Rightarrow> True)"
  by (induction rb pc rule: put_step.induct) (auto simp: Let_def split: sum.splits)

lemma put_ghost_prods [simp]: "prods (put_ghost n pc s) = prods s"
  by (simp add: put_ghost_def split: put_pc.splits list.splits)

lemma claim_shape:
  assumes "sys_step s s'"
  shows "(prods s' = prods s \<and> stream s' = stream s) \<or>
         (\<exists>i p xs. i < length (prods s) \<and> prods s' = (prods s)[i := p] \<and> stream s' = stream s @ xs \<and>
            prod_rest (prods s ! i) = xs @ prod_rest p)"
  using assms
proof (induction rule: sys_step.induct)
  case (put_call s i ds rest)
  show ?case
    apply (rule disjI2, rule exI [of _ i], rule exI [of _ "\<lparr>p_pc = Some (PutAdd ds), p_todo = rest\<rparr>"],
           rule exI [of _ "[]"])
    using put_call by (simp add: prod_set_def prod_rest_def unclaimed_def)
next
  case (put_move s i pc rb' pc')
  have r: "prod_rest (prods s ! i) =
        (case pc of PutAdd ds \<Rightarrow> ds | _ \<Rightarrow> []) @ prod_rest ((prods s ! i)\<lparr>p_pc := Some pc'\<rparr>)"
    using put_move.hyps(3) put_step_unclaimed [OF put_move.hyps(5)]
    by (auto simp: prod_rest_def unclaimed_def split: put_pc.splits)
  have st: "stream (put_ghost (rb_size (ring s)) pc (prod_set s i rb' ((prods s ! i)\<lparr>p_pc := Some pc'\<rparr>))) =
                 stream s @ (case pc of PutAdd ds \<Rightarrow> ds | _ \<Rightarrow> [])"
    by (auto simp: put_ghost_def prod_set_def split: put_pc.splits list.splits)
  show ?case
    apply (rule disjI2, rule exI [of _ i], rule exI [of _ "(prods s ! i)\<lparr>p_pc := Some pc'\<rparr>"],
           rule exI [of _ "case pc of PutAdd ds \<Rightarrow> ds | _ \<Rightarrow> []"])
    using put_move.hyps(2) r st by (simp add: prod_set_def)
next
  case (put_return s i)
  show ?case
    apply (rule disjI2, rule exI [of _ i], rule exI [of _ "(prods s ! i)\<lparr>p_pc := None\<rparr>"],
           rule exI [of _ "[]"])
    using put_return by (simp add: prod_set_def prod_rest_def unclaimed_def)
qed (simp_all add: cons_set_def)

lemma solo_step: "sys_step s s' \<Longrightarrow> solo_ok w s \<Longrightarrow> solo_ok w s'"
  using claim_shape [of s s'] by (auto simp: solo_ok_def)

lemma values_step:
  assumes "sys_step s s'" and "values_ok V s"
  shows "values_ok V s'"
  using claim_shape [OF assms(1)]
proof (elim disjE exE conjE)
  assume "prods s' = prods s" and "stream s' = stream s"
  then show ?thesis using assms(2) by (simp add: values_ok_def)
next
  fix i p xs
  assume i: "i < length (prods s)" and p: "prods s' = (prods s)[i := p]"
    and st: "stream s' = stream s @ xs" and r: "prod_rest (prods s ! i) = xs @ prod_rest p"
  have "set (prod_rest (prods s ! i)) \<subseteq> V" using assms(2) i by (simp add: values_ok_def)
  then have "set xs \<subseteq> V" and "set (prod_rest p) \<subseteq> V" using r by simp_all
  moreover have "\<forall>q\<in>set (prods s'). set (prod_rest q) \<subseteq> V"
  proof
    fix q assume "q \<in> set (prods s')"
    then have "q = p \<or> q \<in> set (prods s)" using p set_update_subset_insert by fastforce
    then show "set (prod_rest q) \<subseteq> V"
      using \<open>set (prod_rest p) \<subseteq> V\<close> assms(2) by (auto simp: values_ok_def)
  qed
  ultimately show ?thesis using assms(2) st by (simp add: values_ok_def)
qed

lemma reach_claims:
  assumes "sys_step\<^sup>*\<^sup>* s0 s" and "P s0" and "\<And>s s'. sys_step s s' \<Longrightarrow> P s \<Longrightarrow> P s'"
  shows "P s"
  using assms(1,2) by (induction rule: rtranclp_induct) (auto intro: assms(3))

lemma step_frame:
  "sys_step s s' \<Longrightarrow> rb_size (ring s') = rb_size (ring s) \<and> length (conss s') = length (conss s)"
  by (induction rule: sys_step.induct)
     (auto simp: prod_set_def cons_set_def put_step_size dest: get_step_frame)

lemma reach_frame:
  "sys_step\<^sup>*\<^sup>* s0 s \<Longrightarrow> rb_size (ring s) = rb_size (ring s0) \<and> length (conss s) = length (conss s0)"
  by (induction rule: rtranclp_induct) (auto dest: step_frame)

lemma list_all_upd: "list_all P xs \<Longrightarrow> P x \<Longrightarrow> list_all P (xs[i := x])"
  unfolding list_all_length by (metis length_list_update nth_list_update_eq nth_list_update_neq)

lemma one_get_move:
  assumes inv: "sys_inv s" and i: "i < length (conss s)" and pc: "c_pc (conss s ! i) = CGet pc"
    and st: "get_step (ring s) pc = Inr (rb', pc')"
    and ok: "one_get_th bs (writeCursor (ring s)) (rb_size (ring s)) (conss s ! i)"
  shows "one_get_pc bs pc'"
proof -
  have "cons_ok s i" using inv i by (simp add: sys_inv_def)
  then have g: "get_pc_ok s i pc" using pc by (simp add: cons_ok_def)
  have t: "c_got (conss s ! i) = []" "one_get_pc bs pc" "c_bs (conss s ! i) = bs"
    "bs < rb_size (ring s)" "bs \<le> writeCursor (ring s) + 1" "0 \<le> bs"
    using ok pc by (simp_all add: one_get_th_def)
  have cb: "-1 \<le> readBarrier (ring s)" "readBarrier (ring s) \<le> writeCursor (ring s)"
    "writeCursor (ring s) \<le> seq_limit" "0 \<le> writeCursor (ring s)"
    using inv by (auto simp: sys_inv_def count_ok_def)
  show ?thesis
  proof (cases pc)
    case (GetLoop fr)
    then show ?thesis using st g t by (auto simp: frame_ok_def split: if_splits)
  next
    case (GetBarrier fr)
    then have f: "g_next fr = g_i fr" "g_i fr < bs" "0 \<le> g_i fr"
      using g t by (simp_all add: in_loop_def frame_ok_def)
    then have "i64 (g_next fr - readBarrier (ring s)) = g_next fr - readBarrier (ring s)"
      using cb t by (intro i64_small) (simp_all add: seq_limit_def)
    then show ?thesis using GetBarrier st f cb t by (auto split: if_splits)
  next
    case (GetPublish fr m)
    then show ?thesis using st g t by (auto simp: frame_ok_def)
  qed (use st t in \<open>auto split: if_splits sum.splits\<close>)
qed

lemma one_get_step:
  assumes "sys_step s s'" and "sys_inv s" and "one_get_ok bs w st s"
  shows "one_get_ok bs w st s'"
  using assms
proof (induction rule: sys_step.induct)
  case (put_call s i ds rest)
  have "p_pc (prods s ! i) = None \<and> p_todo (prods s ! i) = []"
    using put_call.hyps(2) put_call.prems(2) by (simp add: one_get_ok_def producers_done_def list_all_length)
  then show ?case using put_call.hyps(3) by simp
next
  case (put_move s i pc rb' pc')
  have "p_pc (prods s ! i) = None \<and> p_todo (prods s ! i) = []"
    using put_move.hyps(2) put_move.prems(2) by (simp add: one_get_ok_def producers_done_def list_all_length)
  then show ?case using put_move.hyps(3) by simp
next
  case (put_panic s i pc e)
  have "p_pc (prods s ! i) = None \<and> p_todo (prods s ! i) = []"
    using put_panic.hyps(2) put_panic.prems(2) by (simp add: one_get_ok_def producers_done_def list_all_length)
  then show ?case using put_panic.hyps(3) by simp
next
  case (put_return s i)
  have "p_pc (prods s ! i) = None \<and> p_todo (prods s ! i) = []"
    using put_return.hyps(2) put_return.prems(2) by (simp add: one_get_ok_def producers_done_def list_all_length)
  then show ?case using put_return.hyps(3) by simp
next
  case (cons_move s i pc rb' pc')
  have th: "one_get_th bs w (rb_size (ring s)) (conss s ! i)"
    using cons_move.prems(2) cons_move.hyps(2) by (simp add: one_get_ok_def list_all_length)
  have "one_get_pc bs pc'"
    using one_get_move [OF cons_move.prems(1) cons_move.hyps(2,3,5)] th cons_move.prems(2)
    by (simp add: one_get_ok_def)
  then have "one_get_th bs w (rb_size (ring s)) ((conss s ! i)\<lparr>c_pc := CGet pc'\<rparr>)"
    using th cons_move.hyps(3) by (simp add: one_get_th_def)
  then show ?case using cons_move get_step_frame [OF cons_move.hyps(5)]
    by (simp add: one_get_ok_def cons_set_def list_all_upd producers_done_def)
next
  case (cons_return s i res)
  have th: "one_get_th bs w (rb_size (ring s)) (conss s ! i)"
    using cons_return.prems(2) cons_return.hyps(2) by (simp add: one_get_ok_def list_all_length)
  then have "one_get_th bs w (rb_size (ring s))
      ((conss s ! i)\<lparr>c_pc := after_get s res, c_got := c_got (conss s ! i) @ res\<rparr>)"
    using cons_return.hyps(3) cons_return.prems(2) by (simp add: one_get_th_def one_get_ok_def after_get_def)
  then show ?case using cons_return
    by (simp add: one_get_ok_def cons_set_def list_all_upd producers_done_def)
next
  case (cons_start s i)
  have th: "one_get_th bs w (rb_size (ring s)) (conss s ! i)"
    using cons_start.prems(2) cons_start.hyps(2) by (simp add: one_get_ok_def list_all_length)
  then have "one_get_th bs w (rb_size (ring s)) ((conss s ! i)\<lparr>c_pc := CSelect\<rparr>)"
    using cons_start.hyps(3) by (simp add: one_get_th_def)
  then show ?case using cons_start
    by (simp add: one_get_ok_def cons_set_def list_all_upd producers_done_def)
next
  case (cons_call s i)
  have th: "one_get_th bs w (rb_size (ring s)) (conss s ! i)"
    using cons_call.prems(2) cons_call.hyps(2) by (simp add: one_get_ok_def list_all_length)
  then have "one_get_th bs w (rb_size (ring s))
      ((conss s ! i)\<lparr>c_pc := CGet (GetStart (c_bs (conss s ! i)) (int i))\<rparr>)"
    using cons_call.hyps(3) by (simp add: one_get_th_def)
  then show ?case using cons_call
    by (simp add: one_get_ok_def cons_set_def list_all_upd producers_done_def)
qed (simp_all add: one_get_ok_def producers_done_def)

lemma safe_from:
  assumes "sys_inv s0" and "got_ok s0" and "values_ok V s0" and "sys_step\<^sup>*\<^sup>* s0 s"
  shows "crashed s = None \<and> (\<forall>i<length (conss s). set (c_got (conss s ! i)) \<subseteq> V)"
proof -
  have "sys_inv s \<and> got_ok s"
    using reach_with [where P = got_ok, OF assms(4,1,2)] got_step by blast
  moreover have "values_ok V s"
    using reach_claims [where P = "values_ok V", OF assms(4,3)] values_step by blast
  ultimately show ?thesis using got_okD by (fastforce simp: sys_inv_def values_ok_def)
qed

lemma run_reach: "run_sched s ts \<noteq> None \<Longrightarrow> sys_step\<^sup>*\<^sup>* s (the (run_sched s ts))"
  using run_sched_steps by auto


text \<open>
  C26: \<open>TestConcurrency\<close> never panics, under any interleaving of its six goroutines, and
  every value a consumer logs is one of the 300 values \<open>0, \<dots>, 299\<close> the producers put.
\<close>

theorem test_concurrency_safe:
  assumes "test_concurrency_sys = Some s0" and "sys_step\<^sup>*\<^sup>* s0 s"
  shows "crashed s = None \<and>
         (\<forall>i<length (conss s). set (c_got (conss s ! i)) \<subseteq> Some ` {0..<300})"
proof -
  obtain rb where nb: "new_ring_buffer 100 (int (length [10, 10, 10 :: int])) = Inr rb"
    and s0: "s0 = (init_sys rb test_concurrency_work [10, 10, 10])\<lparr>cmode := UntilEmpty\<rparr>"
    using assms(1) by (auto simp: test_concurrency_sys_def split: sum.splits)
  have wt: "int (work_total test_concurrency_work) \<le> seq_limit" by code_simp
  have i0: "sys_inv s0 \<and> got_ok s0"
    using init_cmode [OF nb _ _ wt, of UntilEmpty] s0 by simp
  have v0: "values_ok (Some ` {0..<300}) s0"
    by (auto simp: s0 values_ok_def init_sys_def prod_rest_def unclaimed_def test_concurrency_work_def)
  show ?thesis using safe_from [OF _ _ v0 assms(2)] i0 by blast
qed

text \<open>
  C27: in \<open>BenchmarkSingleProducerSingleConsumer\<close> with \<open>b.N < 100\<close>, under any
  interleaving, the consumer has received exactly \<open>0, 1, \<dots>, k - 1\<close> for some
  \<open>k \<le> b.N\<close>: the values in the order they were put, none lost, none repeated. The
  bound matters: from \<open>b.N = 100\<close> on the write cursor reaches the ring size, where the
  off-by-one of \<open>Get\<close> reads the unclaimed sequence \<open>writeCursor\<close> from a flagged slot of
  the previous lap (the stale duplicate of C6).
\<close>

theorem bench_spsc_in_order:
  assumes "n < 100" and "bench_spsc_sys n = Some s0" and "sys_step\<^sup>*\<^sup>* s0 s"
  shows "\<exists>k\<le>n. c_got (conss s ! 0) = map (\<lambda>i. Some (int i)) [0..<k]"
proof -
  let ?w = "map (\<lambda>i. Some (int i)) [0..<n]"
  have nb1: "new_ring_buffer 100 1 =
      Inr \<lparr>rb_size = 100, buffer = replicate 100 None, writeCursor = 0, readCursors = [-1],
           available = replicate 100 0, writeBarrier = 0, readBarrier = 0\<rparr>"
    using new_ring_buffer_eq [of 100 1] by simp
  then have nb: "new_ring_buffer 100 (int (length [10 :: int])) =
      Inr \<lparr>rb_size = 100, buffer = replicate 100 None, writeCursor = 0, readCursors = [-1],
           available = replicate 100 0, writeBarrier = 0, readBarrier = 0\<rparr>"
    by simp
  have s0: "s0 = init_sys \<lparr>rb_size = 100, buffer = replicate 100 None, writeCursor = 0,
      readCursors = [-1], available = replicate 100 0, writeBarrier = 0, readBarrier = 0\<rparr>
      [map (\<lambda>i. [Some (int i)]) [0..<n]] [10]"
    using assms(2) unfolding bench_spsc_sys_def nb1 by simp
  have wt: "int (work_total [map (\<lambda>i. [Some (int i)]) [0..<n]]) \<le> seq_limit"
    using assms(1) by (simp add: work_total_def comp_def sum_list_triv seq_limit_def)
  have i0: "sys_inv s0" "fan_ok s0" using inv_init [OF nb _ _ wt] fan_init s0 by simp_all
  have "sys_inv s \<and> fan_ok s" using reach_with [where P = fan_ok, OF assms(3) i0] fan_step by blast
  then have inv: "sys_inv s" and fan: "fan_ok s" by simp_all
  have "solo_ok ?w s0" by (simp add: s0 solo_ok_def init_sys_def prod_rest_def unclaimed_def)
  then have "solo_ok ?w s" using reach_claims [where P = "solo_ok ?w", OF assms(3)] solo_step by blast
  then have pw: "prefix (stream s) ?w" unfolding solo_ok_def prefix_def by metis
  have fr: "rb_size (ring s) = 100" "length (conss s) = 1"
    using reach_frame [OF assms(3)] by (simp_all add: s0 init_sys_def)
  have "writeCursor (ring s) = int (length (stream s))" using inv by (simp add: sys_inv_def count_ok_def)
  moreover have "length (stream s) \<le> n" using prefix_length_le [OF pw] by simp
  ultimately have lap: "writeCursor (ring s) < rb_size (ring s)" using fr assms(1) by simp
  have "prefix (c_got (conss s ! 0)) (stream s)" by (rule fan_okD [OF fan lap]) (simp add: fr)
  then have "prefix (c_got (conss s ! 0)) ?w" using pw by (rule prefix_order.trans)
  then obtain zs where w: "?w = c_got (conss s ! 0) @ zs" by (auto simp: prefix_def)
  then have "length (c_got (conss s ! 0)) \<le> n" by (metis le_add1 length_append length_map length_upt minus_nat.diff_0)
  moreover have "take (length (c_got (conss s ! 0))) ?w = c_got (conss s ! 0)" by (subst w) simp
  ultimately show ?thesis by (intro exI [of _ "length (c_got (conss s ! 0))"]) (simp add: take_map)
qed

text \<open>The theorems at runs of the programs: eleven single-value \<open>Put\<close>s, then the
  first batch of ten of consumer 0.\<close>

theorem test_concurrency_safe_witness:
  "test_concurrency_sys = Some (the test_concurrency_sys) \<and>
   sys_step\<^sup>*\<^sup>* (the test_concurrency_sys) (the (run_sched (the test_concurrency_sys) test_concurrency_sched)) \<and>
   crashed (the (run_sched (the test_concurrency_sys) test_concurrency_sched)) = None \<and>
   set (c_got (conss (the (run_sched (the test_concurrency_sys) test_concurrency_sched)) ! 0)) \<subseteq>
     Some ` {0..<300}"
proof -
  let ?s = "the (run_sched (the test_concurrency_sys) test_concurrency_sched)"
  have e: "test_concurrency_sys \<noteq> None \<and> run_sched (the test_concurrency_sys) test_concurrency_sched \<noteq> None \<and>
           0 < length (conss ?s)" by code_simp
  then have r: "sys_step\<^sup>*\<^sup>* (the test_concurrency_sys) ?s" using run_reach by blast
  have t: "test_concurrency_sys = Some (the test_concurrency_sys)" using e by simp
  show ?thesis using test_concurrency_safe [OF t r] e r t by blast
qed

theorem bench_spsc_in_order_witness:
  "(11::nat) < 100 \<and> bench_spsc_sys 11 = Some (the (bench_spsc_sys 11)) \<and>
   sys_step\<^sup>*\<^sup>* (the (bench_spsc_sys 11)) (the (run_sched (the (bench_spsc_sys 11)) test_concurrency_sched)) \<and>
   (\<exists>k\<le>11. c_got (conss (the (run_sched (the (bench_spsc_sys 11)) test_concurrency_sched)) ! 0) =
      map (\<lambda>i. Some (int i)) [0..<k])"
proof -
  let ?s = "the (run_sched (the (bench_spsc_sys 11)) test_concurrency_sched)"
  have e: "bench_spsc_sys 11 \<noteq> None \<and> run_sched (the (bench_spsc_sys 11)) test_concurrency_sched \<noteq> None"
    by code_simp
  then have r: "sys_step\<^sup>*\<^sup>* (the (bench_spsc_sys 11)) ?s" using run_reach by blast
  have t: "bench_spsc_sys 11 = Some (the (bench_spsc_sys 11))" using e by simp
  show ?thesis using bench_spsc_in_order [of 11, OF _ t r] r t by simp
qed

text \<open>
  C28: \<open>TestBasicFunctionality\<close> under every interleaving of its two goroutines: no
  goroutine panics, and each goroutine that has returned got exactly the five values
  \<open>0, 1, 2, 3, 4\<close> from its \<open>Get(5, id)\<close>, so the test's \<open>len(dataBatch) != 5\<close> check
  never fires. The ring is full (\<open>writeCursor = size = 10\<close>), past the first lap of C24;
  each goroutine reads within the first lap of the slots (\<open>fan2_ok\<close>), and neither the
  barrier gate nor the write cursor stops its loop early (\<open>one_get_ok\<close>).
\<close>

theorem test_basic_functionality_gets:
  assumes "test_basic_sys = Some s0" and "sys_step\<^sup>*\<^sup>* s0 s"
  shows "crashed s = None \<and>
         (\<forall>i<length (conss s). c_pc (conss s ! i) = CStopped \<longrightarrow>
            c_got (conss s ! i) = map Some [0..4])"
proof -
  let ?R = "\<lparr>rb_size = 10, buffer = replicate 10 None, writeCursor = 0, readCursors = replicate 2 (-1),
             available = replicate 10 0, writeBarrier = 0, readBarrier = 0\<rparr> :: int ring_buffer"
  let ?I = "(init_sys ?R test_basic_work [5, 5])\<lparr>cmode := OneGet\<rparr>"
  have nb1: "new_ring_buffer 10 2 = Inr ?R" using new_ring_buffer_eq [of 10 2] by simp
  then have nb: "new_ring_buffer 10 (int (length [5, 5 :: int])) = Inr ?R" by simp
  have r0: "run_sched ?I (replicate 60 (Prod 0)) = Some s0"
    using assms(1) unfolding test_basic_sys_def nb1 by simp
  then have is0: "sys_step\<^sup>*\<^sup>* ?I s0" by (rule run_sched_steps)
  then have ris: "sys_step\<^sup>*\<^sup>* ?I s" using assms(2) by (rule rtranclp_trans)
  have wt: "int (work_total test_basic_work) \<le> seq_limit" by code_simp
  have i0: "sys_inv ?I" using init_cmode [OF nb _ _ wt, of OneGet] by simp
  have f0: "fan2_ok ?I" using fan2_init [of ?R test_basic_work "[5, 5]"] by (simp add: fan2_ok_def)
  have "sys_inv s \<and> fan2_ok s" using reach_with [where P = fan2_ok, OF ris i0 f0] fan2_step by blast
  then have inv: "sys_inv s" and fan: "fan2_ok s" by simp_all
  have inv0: "sys_inv s0" using reach_with [where P = "\<lambda>_. True", OF is0 i0] by simp
  have "one_get_ok 5 10 (map Some [0..9]) (the test_basic_sys)" by code_simp
  moreover have "s0 = the test_basic_sys" unfolding assms(1) by (rule option.sel [symmetric])
  ultimately have o0: "one_get_ok 5 10 (map Some [0..9]) s0" by simp
  have "one_get_ok 5 10 (map Some [0..9]) s"
    using reach_with [where P = "one_get_ok 5 10 (map Some [0..9])", OF assms(2) inv0 o0] one_get_step
    by blast
  then have og: "writeCursor (ring s) = 10" "stream s = map Some [0..9]"
    "list_all (one_get_th 5 10 (rb_size (ring s))) (conss s)"
    by (simp_all add: one_get_ok_def)
  have n: "rb_size (ring s) = 10" using reach_frame [OF ris] by (simp add: init_sys_def)
  have "\<forall>i<length (conss s). c_pc (conss s ! i) = CStopped \<longrightarrow> c_got (conss s ! i) = map Some [0..4]"
  proof (intro allI impI)
    fix i assume i: "i < length (conss s)" and st: "c_pc (conss s ! i) = CStopped"
    have "int (length (c_got (conss s ! i))) = 5"
      using og(3) i st by (fastforce simp: list_all_length one_get_th_def)
    then have l: "length (c_got (conss s ! i)) = 5" by simp
    have sg: "seen (conss s ! i) = c_got (conss s ! i)" using st by (simp add: seen_def)
    have "prefix (seen (conss s ! i)) (stream s)"
      using fan og(1) n i l unfolding fan2_ok_def sg [symmetric] by simp
    then have "prefix (c_got (conss s ! i)) (map Some [0..9])" using st og(2) by (simp add: seen_def)
    then obtain zs where "map Some [0..9] = c_got (conss s ! i) @ zs" by (auto simp: prefix_def)
    then have "take 5 (map Some [0..9]) = c_got (conss s ! i)" using l by (metis append_eq_conv_conj)
    moreover have "take 5 (map Some [0..9]) = (map Some [0..4] :: int option list)" by code_simp
    ultimately show "c_got (conss s ! i) = map Some [0..4]" by simp
  qed
  then show ?thesis using inv by (simp add: sys_inv_def)
qed

theorem test_basic_functionality_gets_witness:
  "test_basic_sys = Some (the test_basic_sys) \<and>
   sys_step\<^sup>*\<^sup>* (the test_basic_sys) (the (run_sched (the test_basic_sys) test_basic_sched)) \<and>
   crashed (the (run_sched (the test_basic_sys) test_basic_sched)) = None \<and>
   c_pc (conss (the (run_sched (the test_basic_sys) test_basic_sched)) ! 0) = CStopped \<and>
   c_got (conss (the (run_sched (the test_basic_sys) test_basic_sched)) ! 0) = map Some [0..4] \<and>
   c_pc (conss (the (run_sched (the test_basic_sys) test_basic_sched)) ! 1) = CStopped \<and>
   c_got (conss (the (run_sched (the test_basic_sys) test_basic_sched)) ! 1) = map Some [0..4]"
proof -
  let ?s = "the (run_sched (the test_basic_sys) test_basic_sched)"
  have e: "test_basic_sys \<noteq> None \<and> run_sched (the test_basic_sys) test_basic_sched \<noteq> None \<and>
           1 < length (conss ?s) \<and> c_pc (conss ?s ! 0) = CStopped \<and> c_pc (conss ?s ! 1) = CStopped"
    by code_simp
  then have r: "sys_step\<^sup>*\<^sup>* (the test_basic_sys) ?s" using run_reach by blast
  have t: "test_basic_sys = Some (the test_basic_sys)" using e by simp
  have "crashed ?s = None \<and>
        (\<forall>i<length (conss ?s). c_pc (conss ?s ! i) = CStopped \<longrightarrow> c_got (conss ?s ! i) = map Some [0..4])"
    by (rule test_basic_functionality_gets [OF t r])
  then have c: "crashed ?s = None" and
    a: "\<forall>i<length (conss ?s). c_pc (conss ?s ! i) = CStopped \<longrightarrow> c_got (conss ?s ! i) = map Some [0..4]"
    by simp_all
  have l1: "1 < length (conss ?s)" and p0: "c_pc (conss ?s ! 0) = CStopped"
    and p1: "c_pc (conss ?s ! 1) = CStopped" using e by simp_all
  have "c_got (conss ?s ! 0) = map Some [0..4]" using a less_trans [OF zero_less_one l1] p0 by blast
  moreover have "c_got (conss ?s ! 1) = map Some [0..4]" using a l1 p1 by blast
  ultimately have "crashed ?s = None" "c_got (conss ?s ! 0) = map Some [0..4]"
    "c_got (conss ?s ! 1) = map Some [0..4]" using c by simp_all
  then show ?thesis using e r t by simp
qed

end
