(* ===== verification/Spec2Isabelle.thy ===== *)
theory Spec2Isabelle
  imports Harness Overflow TestRuns
begin

text \<open>
  \<^bold>\<open>A verification library for the lock-free ring buffer of \<open>src/lmax.go\<close>.\<close>

  \<^emph>\<open>The program.\<close> \<open>src/lmax.go\<close> holds one data structure, \<open>RingBuffer\<close>
  (lines 10--19): \<open>size\<close> payload slots, an \<open>int64\<close> \<open>writeCursor\<close> that counts the
  sequences claimed so far, one \<open>int64\<close> read cursor per consumer (the last sequence it
  read, \<open>-1\<close> at first), an \<open>int32\<close> availability flag per slot and a \<open>readBarrier\<close>.
  \<open>NewRingBuffer\<close> allocates it. \<open>Put(data...)\<close> claims \<open>len(data)\<close> sequences with
  one \<open>atomic.AddInt64\<close> and writes sequence \<open>s\<close> to slot \<open>s % size\<close>, setting the
  slot's flag to 1. \<open>Get(batchSize, consumerId)\<close> reads from the consumer's cursor on while
  fewer than \<open>batchSize\<close> values were read, \<open>nextRead \<le> writeCursor\<close> and
  \<open>nextRead - readBarrier < size\<close>; it sleeps and retries while the slot's flag is 0,
  stores its cursor after each value, and at the end stores the least of all cursors into
  \<open>readBarrier\<close>. Producers and consumers share the record only through these fields;
  \<open>Producer\<close> and \<open>Consumer\<close> (lines 84--106) are the harness's wrappers, driven by
  \<open>main\<close> and by \<open>src/lmax_test.go\<close>.

  \<^emph>\<open>The theories and what they model.\<close>
  \<^item> \<open>Prelude\<close>: the Go runtime as the code uses it: a panic is a \<open>go_error\<close> value
    (\<open>Inl\<close>); \<open>int64\<close> arithmetic wraps (\<open>i64\<close>, \<open>signed_take_bit 63\<close>); Go's
    \<open>%\<close> truncates and panics on 0 (\<open>go_mod\<close>, via \<open>smod\<close>); slice access and
    \<open>make\<close> check their index and length (\<open>go_nth\<close>, \<open>go_update\<close>, \<open>go_make\<close>).
    Their in-range behaviour is the collection \<open>go_simps\<close>.
  \<^item> \<open>RingBuffer\<close>: the record \<open>ring_buffer\<close> (the struct), \<open>new_ring_buffer\<close>
    (\<open>NewRingBuffer\<close>), \<open>put_loop\<close>/\<open>put\<close> (\<open>Put\<close>), \<open>get_loop\<close>,
    \<open>min_cursor\<close> and \<open>get\<close> (\<open>Get\<close>: its read loop, its barrier loop, the whole
    function). The read loop is a \<^theory_text>\<open>partial_function (option)\<close>: its sleep branch
    calls the loop again on the same state, so \<open>None\<close> is a \<open>Get\<close> that never returns. The
    theory also holds the invariant \<open>rb_wf\<close>, the slot relation \<open>slots_hold\<close>/\<open>rb_holds\<close>
    between the record and the stream of published values (a ghost history, as the code keeps
    none), Put's lemmas (it never fails for a positive capacity, keeps \<open>rb_wf\<close>, extends
    the stream: C8) and \<open>NewRingBuffer\<close>'s (C10, C11, C14).
  \<^item> \<open>GetLoop\<close>: \<open>get_count\<close>, the size of the loop's read window, and \<open>get_ref\<close>, a
    closed-form reference of \<open>Get\<close>. The loop reads exactly the window when all its slots are
    flagged (\<open>get_loop_reads\<close>, by induction on the window) and never returns otherwise
    (\<open>get_loop_spins\<close>, by the fixpoint induction \<open>get_loop.raw_induct\<close>); hence
    \<open>get = get_ref\<close> under \<open>rb_wf\<close> (C1), and Get's invariant, panics, cursor advance
    and barrier (C7, C9, C12, C13).
  \<^item> \<open>Published\<close>: the abstract specification, a broadcast queue \<open>bqueue\<close> (the published
    stream and each consumer's count) with \<open>bq_put\<close> and \<open>bq_get\<close>, the abstraction
    \<open>rb_abs\<close>, and the refinement of \<open>Put\<close> (C3) and \<open>Get\<close> (C2) under the conditions in
    which the code is right: the consumer is not lapped and asks for fewer values than were
    published. Outside them: \<open>Get\<close> returns when the batch stays below the write cursor or the
    ring has wrapped (C4), spins forever before the first wrap (C5) and returns a stale
    duplicate after it (C6).
  \<^item> \<open>Harness\<close>: \<open>producer\<close> (\<open>Producer\<close>), \<open>consumer\<close>/\<open>consumer_loop\<close>
    (\<open>Consumer\<close>, with the stop channel's state at each \<open>select\<close> as input), the operations
    \<open>op\<close> and their sequential \<open>run\<close>, \<open>session\<close> (from \<open>NewRingBuffer\<close>), and
    \<open>TestBasicFunctionality\<close> as \<open>test_basic_functionality_ops\<close>/\<open>_check\<close>. Over
    whole sequential runs, a consumer receives every produced value exactly once and in order
    when no value is overwritten unread and it never asks past the published values (C15).
  \<^item> \<open>Overflow\<close>: \<open>Put\<close> at the last \<open>int64\<close> sequence: \<open>AddInt64\<close> wraps the write
    cursor to \<open>-2^63\<close> (C16), and every \<open>Get\<close> after the wrap returns no value and leaves
    the cursors unchanged, since \<open>nextRead \<le> writeCursor\<close> fails (C17).
  \<^item> \<open>Steps\<close>: \<open>Put\<close> and \<open>Get\<close> cut into their atomic loads and stores
    (\<open>put_pc\<close>/\<open>put_step\<close>, \<open>get_pc\<close>/\<open>get_frame\<close>/\<open>get_step\<close>), and the proof that
    running one call's steps alone (\<open>put_run\<close>, \<open>get_run\<close>) is exactly the atomic
    \<open>put\<close> and \<open>get\<close>, panics and spinning included (\<open>put_run_eq\<close>,
    \<open>get_run_eq\<close>): the two models describe the same code.
  \<^item> \<open>Interleaving\<close>: the goroutines of the program: producers (\<open>prod_th\<close>, each with
    its remaining \<open>Put\<close> calls), consumers (\<open>cons_th\<close>, the loop of \<open>Consumer\<close> at a
    \<open>cons_pc\<close>), the stop channel (\<open>closed\<close>) and a crash flag for a panic, in the record
    \<open>sys\<close> with two ghost fields (\<open>stream\<close>, the values claimed so far, and \<open>tags\<close>, the
    sequence last written to each slot). \<open>sys_step\<close> is the \<^theory_text>\<open>inductive\<close> relation
    in which any goroutine does one atomic step; \<open>act\<close>/\<open>run_sched\<close> execute a schedule
    and are sound for it. \<open>main_sys\<close>/\<open>main_sched\<close> are a run of \<open>main\<close>. The
    consumer mode \<open>cmode\<close> (\<open>cons_mode\<close>) selects what a consumer does after a
    \<open>Get\<close> (\<open>after_get\<close>): \<open>RunConsumer\<close> is the loop of \<open>Consumer\<close>,
    \<open>UntilEmpty\<close> the loop of \<open>TestConcurrency\<close>, \<open>OneGet\<close> the single
    \<open>Get\<close> of \<open>TestBasicFunctionality\<close>'s goroutines.
  \<^item> \<open>Concurrent\<close>: the invariant \<open>sys_inv\<close> of every reachable state, by rule induction
    over \<open>sys_step\<close>: no goroutine panics (C18), a consumer's cursor counts the values it
    received (C20), flags are 0 or 1 (C23) and are never reset (C21); and a run with a stale read of an earlier lap
    while a claimed slot is still unwritten (\<open>concurrent_stale_read\<close>).
  \<^item> \<open>Fanout\<close>: while the write cursor is below the ring size, every consumer has
    received a prefix of the claimed stream under every interleaving (C24), and every cursor
    lies strictly below the write cursor, the specification's first invariant, which after a
    wrap weakens to \<open>cursor \<le> writeCursor\<close> (C19); on every lap, a consumer has received
    only values that were put (C25).
  \<^item> \<open>TestRuns\<close>: \<open>TestBasicFunctionality\<close>, \<open>TestConcurrency\<close> and the two
    benchmarks of \<open>src/lmax_test.go\<close> as systems of the interleaving model
    (\<open>test_basic_sys\<close>, \<open>test_concurrency_sys\<close>, \<open>bench_spsc_sys\<close>),
    with the producer-side invariants \<open>solo_ok\<close> (a lone producer
    claims its work in order) and \<open>values_ok\<close> (the stream holds only produced values):
    the test never panics and its consumers log only the values \<open>0..299\<close> (C26); the
    single-producer benchmark delivers \<open>0, 1, \<dots>\<close> exactly in order while \<open>b.N < 100\<close>
    (C27); under every interleaving of \<open>TestBasicFunctionality\<close>'s two goroutines, on a
    full ring past the first lap of C24, each \<open>Get(5, id)\<close> returns exactly
    \<open>0, \<dots>, 4\<close> (C28: \<open>fan2_ok\<close> extends C24 to consumers still within their first lap
    of the slots, \<open>one_get_ok\<close> shows that no \<open>Get\<close> stops short). The multi-producer benchmark starts like \<open>main\<close>, from an \<open>init_sys\<close>
    state, so C18--C21 and C23--C25 apply to it as they stand.
  \<^item> This theory: the scenarios of the specification and of the tests, evaluated by
    \<open>code_simp\<close> in the kernel, the evidence of several findings, and the round trip of
    a \<open>Put\<close> and a \<open>Get\<close> on a fresh ring (C22).

  \<^emph>\<open>Bounds.\<close> The model keeps every cursor below \<open>seq_limit = 2^62\<close>
  (\<open>rb_wf\<close>; \<open>Put\<close>'s lemmas assume \<open>writeCursor + len(data) \<le> 2^62\<close>; the
  interleaving model starts from producers claiming at most \<open>2^62\<close> sequences in all,
  \<open>work_total\<close>). Then every sum and difference the code forms (\<open>nextRead + 1\<close>,
  \<open>nextRead - readBarrier\<close>, \<open>writeCursor + len\<close>) lies inside \<open>int64\<close>, and \<open>i64\<close>
  is the identity on it (\<open>i64_small\<close>). 2^62 sequences are about 146 years at a billion
  values a second; what happens past \<open>2^63\<close> is the subject of \<open>Overflow\<close>. No fuel is
  used: the loops that may not end are \<^theory_text>\<open>partial_function (option)\<close>, the others are
  total with a measure.

  \<^emph>\<open>Not modelled.\<close> The interleaving model assumes sequentially consistent memory (Go's
  atomics give it; the plain slot stores of \<open>buffer\<close> are treated as atomic as well, so a
  torn or reordered write is not modelled). \<open>main\<close>'s sleeps and its exit, and the
  timing of \<open>TestConcurrency\<close> and of the benchmarks, are not modelled: the schedules
  stand for any timing, and the step relation quantifies over all of them. Liveness under
  a fair scheduler (that \<open>TestConcurrency\<close> ends) would need a fairness model of the Go
  scheduler and is not stated; only its safety is. The printing of \<open>Consumer\<close> and the
  test's logging are output only. The specification's wait strategy and shutdown-aware
  \<open>Put\<close>/\<open>Get\<close> have no counterpart in the code.
\<close>

section \<open>Scenarios of the specification and of the tests\<close>

text \<open>
  Scenario A of the specification: with capacity 10 and one consumer, after one
  \<open>Put\<close> of ten values, two \<open>Get(5, 0)\<close> calls return the first five and the last five
  values, in order.
\<close>

theorem scenario_A:
  "session 10 1 [Produce (map Some [0..<10::nat]), Consume 0 5, Consume 0 5] =
   Some (Inr [(0, map Some [0..<5]), (0, map Some [5..<10])])"
  by code_simp

text \<open>
  The same scenario with a second, idle consumer: the second \<open>Get(5, 0)\<close> returns
  only four values although six are published and unread, because \<open>Get\<close> also stops at
  \<open>nextRead - readBarrier \<ge> size\<close> and the stored barrier is the idle consumer's \<open>-1\<close>.
  The specification says a batch is shorter only at shutdown.
\<close>

theorem scenario_A_idle_consumer:
  "session 10 2 [Produce (map Some [0..<10::nat]), Consume 0 5, Consume 0 5] =
   Some (Inr [(0, map Some [0..<5]), (0, map Some [5..<9])])"
  by code_simp

text \<open>
  Scenario B of the specification (capacity 4, two consumers, consumer 1 never reads,
  two \<open>Put\<close>s of three values): \<open>Put\<close> is not gated by the consumers, so the second call
  overwrites the slots of 10 and 20; consumer 0 receives 50, 60, 30, 40 and then nothing more,
  since the idle consumer's cursor pins the barrier. 10 and 20 are lost.
\<close>

theorem scenario_B_overwrite:
  "session 4 2 [Produce (map Some [10, 20, 30::nat]), Produce (map Some [40, 50, 60]),
                Consume 0 6, Consume 0 6] =
   Some (Inr [(0, map Some [50, 60, 30, 40]), (0, [])])"
  by code_simp

text \<open>
  \<open>TestBasicFunctionality\<close> of \<open>src/lmax_test.go\<close>: ten single-value \<open>Producer\<close>
  calls into a ring of capacity 10 with two consumers, then \<open>Get(5, 0)\<close> and \<open>Get(5, 1)\<close>
  in either order: each consumer receives the first five values (the sequential reading;
  C28 covers every interleaving of the test's goroutines).
\<close>

theorem test_basic_functionality:
  "test_basic_functionality_check True \<and> test_basic_functionality_check False \<and>
   session 10 2 (test_basic_functionality_ops True) =
     Some (Inr [(0, map Some [0..<5]), (1, map Some [0..<5])]) \<and>
   session 10 2 (test_basic_functionality_ops False) =
     Some (Inr [(1, map Some [0..<5]), (0, map Some [0..<5])])"
  by code_simp

text \<open>
  The off-by-one of \<open>Get\<close> after a wrap, as a run: capacity 4, one consumer, four
  values read, then \<open>Get(1)\<close> returns the stale 1 again, and after \<open>Put(5)\<close> the next
  \<open>Get(1)\<close> returns 2: the consumer sees 1, 2, 3, 4, 1, 2 and never sees 5.
\<close>

theorem duplicate_then_skip:
  "session 4 1 [Produce (map Some [1, 2, 3, 4::nat]), Consume 0 4, Consume 0 1,
                Produce [Some 5], Consume 0 1] =
   Some (Inr [(0, map Some [1, 2, 3, 4]), (0, [Some 1]), (0, [Some 2])])"
  by code_simp

text \<open>
  \<open>Consumer\<close> prints the non-nil values of each batch in order and stops at the first
  \<open>select\<close> that finds the stop channel closed.
\<close>

theorem consumer_prints_in_order:
  "(case new_ring_buffer 4 1 of
      Inl e \<Rightarrow> None
    | Inr rb \<Rightarrow>
        (case producer rb (map Some [1, 2, 3::nat]) of
           Inl e \<Rightarrow> None
         | Inr rb1 \<Rightarrow> map_option (map_sum id snd) (consumer rb1 0 1 [False, False, False, True]))) =
   Some (Inr [1, 2, 3])"
  by code_simp

section \<open>Round trip through a fresh ring\<close>

text \<open>
  C22: on a ring fresh from \<open>NewRingBuffer\<close>, a \<open>Put\<close> of at most \<open>size\<close> values followed
  by a \<open>Get\<close> of as many values by any valid consumer returns exactly the values put, in order.
\<close>

theorem put_get_roundtrip:
  assumes "0 < sz" and "0 \<le> cid" and "cid < n" and "int (length ds) \<le> sz"
    and "int (length ds) \<le> seq_limit"
  shows "\<exists>rb rb' rb''. new_ring_buffer sz n = Inr rb \<and> put rb ds = Inr rb' \<and>
           get rb' (int (length ds)) cid = Some (Inr (rb'', ds))"
proof -
  let ?rb = "\<lparr>rb_size = sz, buffer = replicate (nat sz) None, writeCursor = 0,
                readCursors = replicate (nat n) (-1),
                available = replicate (nat sz) 0, writeBarrier = 0, readBarrier = 0\<rparr> :: 'a ring_buffer"
  have nr: "new_ring_buffer sz n = Inr ?rb" using assms new_ring_buffer_eq [of sz n] by simp
  have wf: "rb_wf ?rb" using assms by (simp add: rb_wf_def seq_limit_def)
  have h: "rb_holds ?rb []" using assms by (simp add: rb_holds_def slots_hold_Nil)
  obtain rb' where p: "put ?rb ds = Inr rb'" and wf': "rb_wf rb'" and h': "rb_holds rb' ds"
    and rc: "readCursors rb' = readCursors ?rb" and rb: "readBarrier rb' = readBarrier ?rb"
    and sz: "rb_size rb' = sz"
    using put_holds [OF wf h] assms by auto
  have w: "writeCursor rb' = int (length ds)" using h' by (simp add: rb_holds_def)
  have c: "readCursors rb' ! nat cid = -1" using rc assms by simp
  have k: "get_count rb' (readCursors rb' ! nat cid + 1) (int (length ds)) = int (length ds)"
    using c w rb sz assms by (simp add: get_count_def)
  have "get rb' (int (length ds)) cid =
          Some (Inr (rb'\<lparr>readCursors := (readCursors rb')[nat cid := -1 + int (length ds)],
                    readBarrier := Min (set ((readCursors rb')[nat cid := -1 + int (length ds)]))\<rparr>, ds))"
    using get_in_window [OF wf' h', of cid "int (length ds)"] c k w sz rc assms by simp
  then show ?thesis using nr p by blast
qed
theorem put_get_roundtrip_witness:
  "0 < (4::int) \<and> 0 \<le> (1::int) \<and> (1::int) < 2 \<and>
   int (length [Some 1, Some 2, Some (3::nat)]) \<le> 4 \<and>
   int (length [Some 1, Some 2, Some (3::nat)]) \<le> seq_limit \<and>
   (\<exists>rb rb' rb''. new_ring_buffer 4 2 = Inr rb \<and> put rb [Some 1, Some 2, Some (3::nat)] = Inr rb' \<and>
      get rb' (int (length [Some 1, Some 2, Some (3::nat)])) 1 = Some (Inr (rb'', [Some 1, Some 2, Some 3])))"
  using put_get_roundtrip [of 4 1 2 "[Some 1, Some 2, Some (3::nat)]"] by (simp add: seq_limit_def)

end
